theory Spec2Isabelle
  imports Main "HOL-Library.Word"
begin

unbundle bit_operations_syntax

section \<open>Machine integers and the low bit\<close>

text \<open>
  The C++ sources index their arrays with \<open>int\<close> and store \<open>int64_t\<close> (Fenwick,
  Fenwick2D, FenwickRURQ) or \<open>int\<close> (FenwickRMQ) values. Signed overflow is undefined
  behaviour in C++, so the executions the language defines are exactly those in which
  every intermediate result is the mathematical one: indices and values are modelled as
  \<open>int\<close>. The expression \<open>idx & -idx\<close> is kept as written, on the two's-complement
  bit operations of \<open>int\<close>.

  In two places an overflow is reached by an ordinary call and decides what the caller
  sees, and there the model writes out the wrap-around of the two's-complement machine:
  the budget \<open>val\<close> of \<open>fast_search\<close>, an \<open>int64_t\<close> that is decremented and compared
  (\<open>wrap64\<close>), and the cell count and the flat cell index of Fenwick2D, products
  computed in \<open>int\<close> (\<open>wrap32\<close>).

  A tree's storage \<open>T[]\<close> is a store: a function from index to value. The operations
  below read and write it only inside \<open>0..n\<close> when their documented preconditions hold.
\<close>

type_synonym int64 = int

text \<open>The value a 64-bit (32-bit) two's-complement register holds after computing \<open>x\<close>.\<close>

definition wrap64 :: "int \<Rightarrow> int64" where
  "wrap64 x = (x + 2 ^ 63) mod 2 ^ 64 - 2 ^ 63"

definition wrap32 :: "int \<Rightarrow> int" where
  "wrap32 x = (x + 2 ^ 31) mod 2 ^ 32 - 2 ^ 31"

definition lowbit :: "int \<Rightarrow> int" where
  "lowbit i = i AND (- i)"

lemma lowbit_even: "lowbit (2 * m) = 2 * lowbit m"
proof -
  have "(- (2 * m)) div 2 = - m" by simp
  then show ?thesis
    unfolding lowbit_def by (subst and_int_rec) simp
qed

lemma lowbit_odd: "lowbit (2 * m + 1) = 1"
proof -
  have "(- (2 * m + 1)) div 2 = NOT m" by (simp add: not_int_def)
  then show ?thesis
    unfolding lowbit_def by (subst and_int_rec) simp
qed

lemma lowbit_pos: "0 < i \<Longrightarrow> 0 < lowbit i \<and> lowbit i \<le> i"
proof (induction "nat i" arbitrary: i rule: less_induct)
  case less
  show ?case
  proof (cases "even i")
    case True
    then obtain m where m: "i = 2 * m" by (auto elim: evenE)
    with less.prems have "0 < m" "nat m < nat i" by auto
    with less.hyps[of m] m show ?thesis by (simp add: lowbit_even)
  next
    case False
    then obtain m where m: "i = 2 * m + 1" by (auto elim: oddE)
    with less.prems show ?thesis by (simp add: lowbit_odd)
  qed
qed

lemma lowbit_gt0: "1 \<le> i \<Longrightarrow> 0 < lowbit i"
  using lowbit_pos[of i] by simp

lemma lowbit_le: "1 \<le> i \<Longrightarrow> lowbit i \<le> i"
  using lowbit_pos[of i] by simp

section \<open>Fenwick: the one-dimensional tree (fenwick.h)\<close>

record fenwick =
  fen_n :: int
  fen_nmask :: int
  fen_T :: "int \<Rightarrow> int64"

text \<open>\<open>Fenwick::allocate(m)\<close>: \<open>n = (1 << m) - 1\<close>, \<open>nmask = 1 << (m - 1)\<close>, storage zeroed.\<close>

definition allocate :: "int \<Rightarrow> fenwick" where
  "allocate m =
     \<lparr>fen_n = push_bit (nat m) 1 - 1,
      fen_nmask = push_bit (nat (m - 1)) 1,
      fen_T = (\<lambda>_. 0)\<rparr>"

text \<open>\<open>clear\<close>: \<open>std::fill_n(T, n + 1, 0LL)\<close>.\<close>

definition clear :: "fenwick \<Rightarrow> fenwick" where
  "clear s = s\<lparr>fen_T := (\<lambda>i. if 0 \<le> i \<and> i \<le> fen_n s then 0 else fen_T s i)\<rparr>"

text \<open>\<open>prefix_sum\<close>: \<open>for (; idx >= 1; idx -= idx & -idx) sum += T[idx];\<close> (the
  accumulator \<open>sum\<close> is \<open>acc\<close> here)\<close>

function prefix_sum_loop :: "(int \<Rightarrow> int64) \<Rightarrow> int \<Rightarrow> int64 \<Rightarrow> int64" where
  "prefix_sum_loop T idx acc =
     (if idx \<ge> 1 then prefix_sum_loop T (idx - lowbit idx) (acc + T idx) else acc)"
  by pat_completeness auto

termination
  by (relation "measure (\<lambda>(T, idx, acc). nat idx)") (auto dest: lowbit_gt0)

declare prefix_sum_loop.simps [simp del]

definition prefix_sum :: "fenwick \<Rightarrow> int \<Rightarrow> int64" where
  "prefix_sum s idx = prefix_sum_loop (fen_T s) idx 0"

text \<open>
  \<open>update\<close>: \<open>for (; idx <= n; idx += idx & -idx) T[idx] += delta;\<close>
  With \<open>idx = 0\<close> the C++ loop never ends: the loop is a partial function, and
  \<open>None\<close> stands for not returning.
\<close>

partial_function (option) update_loop ::
  "int \<Rightarrow> (int \<Rightarrow> int64) \<Rightarrow> int \<Rightarrow> int64 \<Rightarrow> (int \<Rightarrow> int64) option" where
  "update_loop n T idx delta =
     (if idx \<le> n then update_loop n (T(idx := T idx + delta)) (idx + lowbit idx) delta
      else Some T)"

declare update_loop.simps [code]

definition update :: "fenwick \<Rightarrow> int \<Rightarrow> int64 \<Rightarrow> fenwick option" where
  "update s idx delta =
     map_option (\<lambda>T'. s\<lparr>fen_T := T'\<rparr>) (update_loop (fen_n s) (fen_T s) idx delta)"

text \<open>\<open>construct\<close>: \<open>for (int i = n; i >= 1; i--) { T[i] = 0LL; update(i, a[i]); }\<close>\<close>

partial_function (option) construct_loop ::
  "fenwick \<Rightarrow> (int \<Rightarrow> int64) \<Rightarrow> int \<Rightarrow> fenwick option" where
  "construct_loop s a i =
     (if i \<ge> 1
      then Option.bind (update (s\<lparr>fen_T := (fen_T s)(i := 0)\<rparr>) i (a i))
             (\<lambda>s'. construct_loop s' a (i - 1))
      else Some s)"

declare construct_loop.simps [code]

definition construct :: "fenwick \<Rightarrow> (int \<Rightarrow> int64) \<Rightarrow> fenwick option" where
  "construct s a = construct_loop s a (fen_n s)"

text \<open>
  \<open>fast_construct\<close>: the caller's array is overwritten with its cumulative sums
  (first loop), then every node is the difference of two of them (second loop). The
  model returns the new tree and the mutated array.
\<close>

function cumulate_loop :: "int \<Rightarrow> (int \<Rightarrow> int64) \<Rightarrow> int \<Rightarrow> (int \<Rightarrow> int64)" where
  "cumulate_loop n a i =
     (if i \<le> n then cumulate_loop n (a(i := a i + a (i - 1))) (i + 1) else a)"
  by pat_completeness auto

termination
  by (relation "measure (\<lambda>(n, a, i). nat (n + 1 - i))") auto

declare cumulate_loop.simps [simp del]

function fill_loop ::
  "int \<Rightarrow> (int \<Rightarrow> int64) \<Rightarrow> (int \<Rightarrow> int64) \<Rightarrow> int \<Rightarrow> (int \<Rightarrow> int64)" where
  "fill_loop n a T i =
     (if i \<le> n
      then fill_loop n a
             (T(i := (if i - lowbit i = 0 then a i else a i - a (i - lowbit i)))) (i + 1)
      else T)"
  by pat_completeness auto

termination
  by (relation "measure (\<lambda>(n, a, T, i). nat (n + 1 - i))") auto

declare fill_loop.simps [simp del]

definition fast_construct :: "fenwick \<Rightarrow> (int \<Rightarrow> int64) \<Rightarrow> fenwick \<times> (int \<Rightarrow> int64)" where
  "fast_construct s a =
     (let a' = cumulate_loop (fen_n s) (a(0 := 0)) 1
      in (s\<lparr>fen_T := fill_loop (fen_n s) a' (fen_T s) 1\<rparr>, a'))"

text \<open>\<open>access\<close>: \<open>(idx == 1) ? T[1] : prefix_sum(idx) - prefix_sum(idx - 1)\<close>.\<close>

definition access :: "fenwick \<Rightarrow> int \<Rightarrow> int64" where
  "access s idx =
     (if idx = 1 then fen_T s 1 else prefix_sum s idx - prefix_sum s (idx - 1))"

text \<open>
  \<open>fast_access\<close>: the two pointers \<open>i\<close> and \<open>j\<close> descend until they meet. The
  loop is a partial function: outside the documented range it need not end.
\<close>

partial_function (option) fast_access_loop ::
  "(int \<Rightarrow> int64) \<Rightarrow> int64 \<Rightarrow> int \<Rightarrow> int \<Rightarrow> int64 option" where
  "fast_access_loop T acc i j =
     (if i \<noteq> j
      then (if i > j then fast_access_loop T (acc + T i) (i - lowbit i) j
            else fast_access_loop T (acc - T j) i (j - lowbit j))
      else Some acc)"

declare fast_access_loop.simps [code]

definition fast_access :: "fenwick \<Rightarrow> int \<Rightarrow> int64 option" where
  "fast_access s idx =
     fast_access_loop (fen_T s) (fen_T s idx) (idx - lowbit idx) (idx - 1)"

text \<open>\<open>search\<close>: the linear scan \<open>for (int i = 1; i <= n; i++)\<close>.\<close>

function search_loop :: "fenwick \<Rightarrow> int64 \<Rightarrow> int \<Rightarrow> int" where
  "search_loop s val i =
     (if i \<le> fen_n s
      then (if prefix_sum s i \<ge> val then i else search_loop s val (i + 1))
      else fen_n s + 1)"
  by pat_completeness auto

termination
  by (relation "measure (\<lambda>(s, val, i). nat (fen_n s + 1 - i))") auto

declare search_loop.simps [simp del]

definition search :: "fenwick \<Rightarrow> int64 \<Rightarrow> int" where
  "search s val = search_loop s val 1"

text \<open>
  \<open>fast_search\<close>: \<open>val--\<close>, then the descent over \<open>mask = nmask, nmask >> 1, ...\<close>.
  A negative mask never reaches 0 under \<open>>>\<close>: the loop is a partial function
  (the variable \<open>mask\<close> is \<open>msk\<close> here). The budget \<open>val\<close> is an \<open>int64_t\<close> that the
  code decrements (\<open>val--\<close>, \<open>val -= T[ii]\<close>) and compares with the nodes: both
  subtractions are written with their 64-bit wrap-around.
\<close>

partial_function (option) fast_search_loop ::
  "int \<Rightarrow> (int \<Rightarrow> int64) \<Rightarrow> int64 \<Rightarrow> int \<Rightarrow> int \<Rightarrow> int option" where
  "fast_search_loop n T val i msk =
     (if msk \<noteq> 0
      then (if i + msk > n then fast_search_loop n T val i (drop_bit 1 msk)
            else if T (i + msk) \<le> val
              then fast_search_loop n T (wrap64 (val - T (i + msk))) (i + msk) (drop_bit 1 msk)
              else fast_search_loop n T val i (drop_bit 1 msk))
      else Some (i + 1))"

declare fast_search_loop.simps [code]

definition fast_search :: "fenwick \<Rightarrow> int64 \<Rightarrow> int option" where
  "fast_search s val =
     fast_search_loop (fen_n s) (fen_T s) (wrap64 (val - 1)) 0 (fen_nmask s)"

text \<open>\<open>range_sum\<close> and \<open>fast_range_sum\<close>.\<close>

definition range_sum :: "fenwick \<Rightarrow> int \<Rightarrow> int \<Rightarrow> int64" where
  "range_sum s l r =
     (if l > 1 then prefix_sum s r - prefix_sum s (l - 1) else prefix_sum s r)"

partial_function (option) fast_range_sum_loop ::
  "(int \<Rightarrow> int64) \<Rightarrow> int64 \<Rightarrow> int \<Rightarrow> int \<Rightarrow> int64 option" where
  "fast_range_sum_loop T acc i j =
     (if i \<noteq> j
      then (if i > j then fast_range_sum_loop T (acc + T i) (i - lowbit i) j
            else fast_range_sum_loop T (acc - T j) i (j - lowbit j))
      else Some acc)"

declare fast_range_sum_loop.simps [code]

definition fast_range_sum :: "fenwick \<Rightarrow> int \<Rightarrow> int \<Rightarrow> int64 option" where
  "fast_range_sum s l r =
     fast_range_sum_loop (fen_T s) (fen_T s r) (r - lowbit r) (l - 1)"

text \<open>The range-update point-query pair \<open>rupq_update\<close> / \<open>rupq_access\<close>.\<close>

definition rupq_update :: "fenwick \<Rightarrow> int \<Rightarrow> int \<Rightarrow> int64 \<Rightarrow> fenwick option" where
  "rupq_update s l r delta =
     Option.bind (update s l delta)
       (\<lambda>s'. if r < fen_n s' then update s' (r + 1) (- delta) else Some s')"

definition rupq_access :: "fenwick \<Rightarrow> int \<Rightarrow> int64" where
  "rupq_access s idx = prefix_sum s idx"

section \<open>FenwickRURQ: two trees for range update, range query (fenwick_rurq.h)\<close>

record fenwick_rurq =
  rurq_n :: int
  rurq_T1 :: fenwick
  rurq_T2 :: fenwick

text \<open>The constructor \<open>FenwickRURQ(m)\<close>: two trees of order \<open>m\<close>, \<open>n = T1->n\<close>.\<close>

definition rurq_new :: "int \<Rightarrow> fenwick_rurq" where
  "rurq_new m = \<lparr>rurq_n = fen_n (allocate m), rurq_T1 = allocate m, rurq_T2 = allocate m\<rparr>"

text \<open>
  \<open>FenwickRURQ::update\<close>, statement by statement:
  \<open>T1->update(l, delta); T2->update(l, delta * (l - 1));\<close>
  \<open>if (r < n) { T1->update(r + 1, -delta); T2->update(r + 1, delta * r); }\<close>
\<close>

definition rurq_update ::
  "fenwick_rurq \<Rightarrow> int \<Rightarrow> int \<Rightarrow> int64 \<Rightarrow> fenwick_rurq option" where
  "rurq_update s l r delta =
     Option.bind (update (rurq_T1 s) l delta) (\<lambda>t1.
     Option.bind (update (rurq_T2 s) l (delta * (l - 1))) (\<lambda>t2.
       if r < rurq_n s
       then Option.bind (update t1 (r + 1) (- delta)) (\<lambda>t1'.
            Option.bind (update t2 (r + 1) (delta * r)) (\<lambda>t2'.
              Some (s\<lparr>rurq_T1 := t1', rurq_T2 := t2'\<rparr>)))
       else Some (s\<lparr>rurq_T1 := t1, rurq_T2 := t2\<rparr>)))"

text \<open>\<open>FenwickRURQ::prefix_sum\<close>: \<open>T1->prefix_sum(idx) * idx - T2->prefix_sum(idx)\<close>.\<close>

definition rurq_prefix_sum :: "fenwick_rurq \<Rightarrow> int \<Rightarrow> int64" where
  "rurq_prefix_sum s idx =
     prefix_sum (rurq_T1 s) idx * idx - prefix_sum (rurq_T2 s) idx"

definition rurq_range_sum :: "fenwick_rurq \<Rightarrow> int \<Rightarrow> int \<Rightarrow> int64" where
  "rurq_range_sum s l r =
     (if l > 1 then rurq_prefix_sum s r - rurq_prefix_sum s (l - 1)
      else rurq_prefix_sum s r)"

section \<open>FenwickRMQ: dynamic range minimum (fenwick_rmq.h)\<close>

text \<open>
  The three vectors \<open>a\<close>, \<open>lbit\<close>, \<open>rbit\<close> hold C++ \<open>int\<close>s, which the code only
  compares and copies; \<open>INT_MAX\<close> is the sentinel of unset slots.
\<close>

definition INT_MAX :: int where
  "INT_MAX = 2147483647"

record fenwick_rmq =
  rmq_n :: int
  rmq_a :: "int \<Rightarrow> int"
  rmq_lbit :: "int \<Rightarrow> int"
  rmq_rbit :: "int \<Rightarrow> int"

text \<open>The constructor: all three vectors filled with \<open>INT_MAX\<close>.\<close>

definition rmq_new :: "int \<Rightarrow> fenwick_rmq" where
  "rmq_new n =
     \<lparr>rmq_n = n, rmq_a = (\<lambda>_. INT_MAX), rmq_lbit = (\<lambda>_. INT_MAX), rmq_rbit = (\<lambda>_. INT_MAX)\<rparr>"

text \<open>
  \<open>query\<close>, first loop (``climb rbit''):
  \<open>while (i <= n && ii - 1 <= to) { res = min(res, rbit[i]); i = ii; ii = i + (i & -i); }\<close>
  The loops return the pair \<open>(res, i)\<close>.
\<close>

partial_function (option) climb_rbit ::
  "fenwick_rmq \<Rightarrow> int \<Rightarrow> int \<Rightarrow> int \<Rightarrow> int \<Rightarrow> (int \<times> int) option" where
  "climb_rbit s to res i ii =
     (if i \<le> rmq_n s \<and> ii - 1 \<le> to
      then climb_rbit s to (min res (rmq_rbit s i)) ii (ii + lowbit ii)
      else Some (res, i))"

declare climb_rbit.simps [code]

text \<open>
  Second loop (``climb lbit''):
  \<open>while (i >= 1 && ii + 1 >= from) { res = min(res, lbit[i]); i = ii; ii = i - (i & -i); }\<close>
\<close>

partial_function (option) climb_lbit ::
  "fenwick_rmq \<Rightarrow> int \<Rightarrow> int \<Rightarrow> int \<Rightarrow> int \<Rightarrow> (int \<times> int) option" where
  "climb_lbit s from res i ii =
     (if i \<ge> 1 \<and> ii + 1 \<ge> from
      then climb_lbit s from (min res (rmq_lbit s i)) ii (ii - lowbit ii)
      else Some (res, i))"

declare climb_lbit.simps [code]

text \<open>
  \<open>query(from, to)\<close>. The C++ member function assigns to no member; the model passes
  the structure through and returns it beside the result.
\<close>

definition rmq_query ::
  "fenwick_rmq \<Rightarrow> int \<Rightarrow> int \<Rightarrow> (int \<times> fenwick_rmq) option" where
  "rmq_query s from to =
     (if from < 1 then Some (INT_MAX, s)
      else if to > rmq_n s then Some (INT_MAX, s)
      else if from > to then Some (INT_MAX, s)
      else
        Option.bind (climb_rbit s to INT_MAX from (from + lowbit from)) (\<lambda>(res1, i1).
        Option.bind
          (climb_lbit s from (if i1 \<le> to then min res1 (rmq_a s i1) else res1)
             to (to - lowbit to)) (\<lambda>(res2, i2).
          Some (if i2 \<ge> from then min res2 (rmq_a s i2) else res2, s))))"

text \<open>
  \<open>update\<close> keeps six running variables beside the node range \<open>[l, r]\<close>:
  \<open>ll, lr, lmin\<close> for the climb to the left of \<open>idx\<close> and \<open>rl, rr, rmin\<close> for the climb
  to the right. \<open>SIDES_INIT\<close> sets them, \<open>SIDES_UPDATE\<close> advances them; they persist
  from one iteration of the node loop to the next.
\<close>

record sides =
  sd_ll :: int
  sd_lr :: int
  sd_lmin :: int
  sd_rl :: int
  sd_rr :: int
  sd_rmin :: int

definition sides_init :: "int \<Rightarrow> sides" where
  "sides_init idx =
     \<lparr>sd_ll = (idx - 1) - lowbit (idx - 1), sd_lr = idx - 1, sd_lmin = INT_MAX,
      sd_rl = idx + 1, sd_rr = (idx + 1) + lowbit (idx + 1), sd_rmin = INT_MAX\<rparr>"

text \<open>
  \<open>SIDES_UPDATE\<close>, first loop:
  \<open>while (lr >= 1 && ll + 1 >= l) { lmin = min(lmin, lbit[lr]); lr = ll; ll = lr - (lr & -lr); }\<close>
\<close>

partial_function (option) sides_left :: "fenwick_rmq \<Rightarrow> int \<Rightarrow> sides \<Rightarrow> sides option" where
  "sides_left s l sd =
     (if sd_lr sd \<ge> 1 \<and> sd_ll sd + 1 \<ge> l
      then sides_left s l
             (sd\<lparr>sd_lmin := min (sd_lmin sd) (rmq_lbit s (sd_lr sd)),
                 sd_lr := sd_ll sd,
                 sd_ll := sd_ll sd - lowbit (sd_ll sd)\<rparr>)
      else Some sd)"

declare sides_left.simps [code]

text \<open>
  \<open>SIDES_UPDATE\<close>, second loop:
  \<open>while (rl <= n && rr - 1 <= r) { rmin = min(rmin, rbit[rl]); rl = rr; rr = rl + (rl & -rl); }\<close>
\<close>

partial_function (option) sides_right :: "fenwick_rmq \<Rightarrow> int \<Rightarrow> sides \<Rightarrow> sides option" where
  "sides_right s r sd =
     (if sd_rl sd \<le> rmq_n s \<and> sd_rr sd - 1 \<le> r
      then sides_right s r
             (sd\<lparr>sd_rmin := min (sd_rmin sd) (rmq_rbit s (sd_rl sd)),
                 sd_rl := sd_rr sd,
                 sd_rr := sd_rr sd + lowbit (sd_rr sd)\<rparr>)
      else Some sd)"

declare sides_right.simps [code]

text \<open>\<open>SIDES_UPDATE\<close> as a whole: each loop is followed by its single-element read.\<close>

definition sides_update :: "fenwick_rmq \<Rightarrow> int \<Rightarrow> int \<Rightarrow> sides \<Rightarrow> sides option" where
  "sides_update s l r sd =
     Option.bind (sides_left s l sd) (\<lambda>sd1.
     Option.bind
       (sides_right s r
          (if sd_lr sd1 \<ge> l
           then sd1\<lparr>sd_lmin := min (sd_lmin sd1) (rmq_a s (sd_lr sd1))\<rparr> else sd1))
       (\<lambda>sd2.
          Some (if sd_rl sd2 \<le> min (rmq_n s) r
                then sd2\<lparr>sd_rmin := min (sd_rmin sd2) (rmq_a s (sd_rl sd2))\<rparr> else sd2)))"

text \<open>
  The node loop over \<open>lbit\<close>: \<open>while (r <= n) { ... r = r + (r & -r); l = r - (r & -r) + 1; }\<close>
\<close>

partial_function (option) update_lbit_loop ::
  "fenwick_rmq \<Rightarrow> int \<Rightarrow> int \<Rightarrow> int \<Rightarrow> int \<Rightarrow> sides \<Rightarrow> fenwick_rmq option" where
  "update_lbit_loop s idx val l r sd =
     (if r \<le> rmq_n s
      then
        (if val \<le> rmq_lbit s r
         then update_lbit_loop (s\<lparr>rmq_lbit := (rmq_lbit s)(r := val)\<rparr>) idx val
                ((r + lowbit r) - lowbit (r + lowbit r) + 1) (r + lowbit r) sd
         else if rmq_lbit s r = rmq_a s idx
         then Option.bind (sides_update s l r sd) (\<lambda>sd'.
                update_lbit_loop
                  (s\<lparr>rmq_lbit := (rmq_lbit s)(r := min val (min (sd_lmin sd') (sd_rmin sd')))\<rparr>)
                  idx val ((r + lowbit r) - lowbit (r + lowbit r) + 1) (r + lowbit r) sd')
         else update_lbit_loop s idx val
                ((r + lowbit r) - lowbit (r + lowbit r) + 1) (r + lowbit r) sd)
      else Some s)"

declare update_lbit_loop.simps [code]

text \<open>
  The node loop over \<open>rbit\<close>: \<open>while (l >= 1) { ... l = l - (l & -l); r = l + (l & -l) - 1; }\<close>
\<close>

partial_function (option) update_rbit_loop ::
  "fenwick_rmq \<Rightarrow> int \<Rightarrow> int \<Rightarrow> int \<Rightarrow> int \<Rightarrow> sides \<Rightarrow> fenwick_rmq option" where
  "update_rbit_loop s idx val l r sd =
     (if l \<ge> 1
      then
        (if val \<le> rmq_rbit s l
         then update_rbit_loop (s\<lparr>rmq_rbit := (rmq_rbit s)(l := val)\<rparr>) idx val
                (l - lowbit l) ((l - lowbit l) + lowbit (l - lowbit l) - 1) sd
         else if rmq_rbit s l = rmq_a s idx
         then Option.bind (sides_update s l r sd) (\<lambda>sd'.
                update_rbit_loop
                  (s\<lparr>rmq_rbit := (rmq_rbit s)(l := min val (min (sd_lmin sd') (sd_rmin sd')))\<rparr>)
                  idx val (l - lowbit l) ((l - lowbit l) + lowbit (l - lowbit l) - 1) sd')
         else update_rbit_loop s idx val
                (l - lowbit l) ((l - lowbit l) + lowbit (l - lowbit l) - 1) sd)
      else Some s)"

declare update_rbit_loop.simps [code]

text \<open>\<open>update(idx, val)\<close>: the early return, the two node loops, then \<open>a[idx] = val\<close>.\<close>

definition rmq_update :: "fenwick_rmq \<Rightarrow> int \<Rightarrow> int \<Rightarrow> fenwick_rmq option" where
  "rmq_update s idx val =
     (if rmq_a s idx = val then Some s
      else
        Option.bind
          (update_lbit_loop s idx val (idx - lowbit idx + 1) idx (sides_init idx)) (\<lambda>s1.
        Option.bind
          (update_rbit_loop s1 idx val idx (idx + lowbit idx - 1) (sides_init idx)) (\<lambda>s2.
          Some (s2\<lparr>rmq_a := (rmq_a s2)(idx := val)\<rparr>))))"

section \<open>Fenwick2D: the two-dimensional tree (fenwick_2d.h)\<close>

text \<open>
  The storage is one flat array that \<open>allocate\<close> sizes at \<open>(n + 1) * (n + 1)\<close> cells;
  cell \<open>(x, y)\<close> lives at index \<open>(n + 1) * y + x\<close>. Both expressions are \<open>int\<close>
  arithmetic in the source and are written with their 32-bit wrap-around. The record
  keeps the number of cells the allocation really has, and an access outside
  \<open>0 .. cells - 1\<close>, which the C++ program performs unchecked on memory it does not own,
  ends the operation with the fault \<open>OutOfBounds\<close>.
\<close>

datatype fault = OutOfBounds

record fenwick2d =
  f2_n :: int
  f2_cells :: int
  f2_T :: "int \<Rightarrow> int64"

text \<open>The expression \<open>(n + 1) * (n + 1)\<close> of \<open>allocate\<close> and \<open>clear\<close>.\<close>

definition cells2d :: "int \<Rightarrow> int" where
  "cells2d n = wrap32 (wrap32 (n + 1) * wrap32 (n + 1))"

text \<open>The expression \<open>(n + 1) * yy + x\<close> of \<open>prefix_sum\<close> and \<open>update\<close>.\<close>

definition cell2d :: "int \<Rightarrow> int \<Rightarrow> int \<Rightarrow> int" where
  "cell2d n x yy = wrap32 (wrap32 (wrap32 (n + 1) * yy) + x)"

text \<open>
  \<open>Fenwick2D::allocate(m)\<close>: \<open>n = (1 << m) - 1\<close>, room for \<open>(n + 1) * (n + 1)\<close> cells
  after the header, and that many cells zeroed.
\<close>

definition allocate2d :: "int \<Rightarrow> fenwick2d" where
  "allocate2d m =
     \<lparr>f2_n = push_bit (nat m) 1 - 1,
      f2_cells = cells2d (push_bit (nat m) 1 - 1),
      f2_T = (\<lambda>_. 0)\<rparr>"

text \<open>
  \<open>prefix_sum(x, y)\<close>: the inner loop
  \<open>for (; yy >= 1; yy -= yy & -yy) sum += T[(n + 1) * yy + x];\<close>
  inside the outer loop \<open>for (; x >= 1; x -= x & -x)\<close>.
\<close>

function prefix_sum2d_inner ::
  "int \<Rightarrow> int \<Rightarrow> (int \<Rightarrow> int64) \<Rightarrow> int \<Rightarrow> int \<Rightarrow> int64 \<Rightarrow> fault + int64" where
  "prefix_sum2d_inner n cells T x yy acc =
     (if yy \<ge> 1
      then (if 0 \<le> cell2d n x yy \<and> cell2d n x yy < cells
            then prefix_sum2d_inner n cells T x (yy - lowbit yy) (acc + T (cell2d n x yy))
            else Inl OutOfBounds)
      else Inr acc)"
  by pat_completeness auto

termination
  by (relation "measure (\<lambda>(n, cells, T, x, yy, acc). nat yy)") (auto dest: lowbit_gt0)

declare prefix_sum2d_inner.simps [simp del]

function prefix_sum2d_outer ::
  "int \<Rightarrow> int \<Rightarrow> (int \<Rightarrow> int64) \<Rightarrow> int \<Rightarrow> int \<Rightarrow> int64 \<Rightarrow> fault + int64" where
  "prefix_sum2d_outer n cells T x y acc =
     (if x \<ge> 1
      then (case prefix_sum2d_inner n cells T x y acc of
              Inl e \<Rightarrow> Inl e
            | Inr acc' \<Rightarrow> prefix_sum2d_outer n cells T (x - lowbit x) y acc')
      else Inr acc)"
  by pat_completeness auto

termination
  by (relation "measure (\<lambda>(n, cells, T, x, y, acc). nat x)") (auto dest: lowbit_gt0)

declare prefix_sum2d_outer.simps [simp del]

definition prefix_sum2d :: "fenwick2d \<Rightarrow> int \<Rightarrow> int \<Rightarrow> fault + int64" where
  "prefix_sum2d s x y = prefix_sum2d_outer (f2_n s) (f2_cells s) (f2_T s) x y 0"

text \<open>
  \<open>update(x, y, delta)\<close>: the inner loop
  \<open>for (; yy <= n; yy += yy & -yy) T[(n + 1) * yy + x] += delta;\<close>
  inside the outer loop \<open>for (; x <= n; x += x & -x)\<close>. Neither ends at index 0.
\<close>

partial_function (option) update2d_inner ::
  "int \<Rightarrow> int \<Rightarrow> (int \<Rightarrow> int64) \<Rightarrow> int \<Rightarrow> int \<Rightarrow> int64 \<Rightarrow> (fault + (int \<Rightarrow> int64)) option" where
  "update2d_inner n cells T x yy delta =
     (if yy \<le> n
      then (if 0 \<le> cell2d n x yy \<and> cell2d n x yy < cells
            then update2d_inner n cells (T(cell2d n x yy := T (cell2d n x yy) + delta))
                   x (yy + lowbit yy) delta
            else Some (Inl OutOfBounds))
      else Some (Inr T))"

declare update2d_inner.simps [code]

partial_function (option) update2d_outer ::
  "int \<Rightarrow> int \<Rightarrow> (int \<Rightarrow> int64) \<Rightarrow> int \<Rightarrow> int \<Rightarrow> int64 \<Rightarrow> (fault + (int \<Rightarrow> int64)) option" where
  "update2d_outer n cells T x y delta =
     (if x \<le> n
      then Option.bind (update2d_inner n cells T x y delta)
             (\<lambda>r. case r of
                     Inl e \<Rightarrow> Some (Inl e)
                   | Inr T' \<Rightarrow> update2d_outer n cells T' (x + lowbit x) y delta)
      else Some (Inr T))"

declare update2d_outer.simps [code]

definition update2d ::
  "fenwick2d \<Rightarrow> int \<Rightarrow> int \<Rightarrow> int64 \<Rightarrow> (fault + fenwick2d) option" where
  "update2d s x y delta =
     map_option (map_sum id (\<lambda>T'. s\<lparr>f2_T := T'\<rparr>))
       (update2d_outer (f2_n s) (f2_cells s) (f2_T s) x y delta)"

text \<open>
  \<open>range_sum(x1, y1, x2, y2)\<close>: the four statements in the source's order; a fault in
  one call of \<open>prefix_sum\<close> is the fault of the whole.
\<close>

definition then_sum :: "fault + 'a \<Rightarrow> ('a \<Rightarrow> fault + 'b) \<Rightarrow> fault + 'b" where
  "then_sum r f = (case r of Inl e \<Rightarrow> Inl e | Inr v \<Rightarrow> f v)"

definition range_sum2d :: "fenwick2d \<Rightarrow> int \<Rightarrow> int \<Rightarrow> int \<Rightarrow> int \<Rightarrow> fault + int64" where
  "range_sum2d s x1 y1 x2 y2 =
     then_sum (prefix_sum2d s x2 y2) (\<lambda>sum0.
     then_sum (if x1 > 1
               then then_sum (prefix_sum2d s (x1 - 1) y2) (\<lambda>p. Inr (sum0 - p))
               else Inr sum0) (\<lambda>sum1.
     then_sum (if y1 > 1
               then then_sum (prefix_sum2d s x2 (y1 - 1)) (\<lambda>p. Inr (sum1 - p))
               else Inr sum1) (\<lambda>sum2.
     if x1 > 1 \<and> y1 > 1
     then then_sum (prefix_sum2d s (x1 - 1) (y1 - 1)) (\<lambda>p. Inr (sum2 + p))
     else Inr sum2)))"

section \<open>Specifications: invariants, operation sequences and brute-force simulations\<close>

text \<open>
  The tree invariant, relative to a logical array \<open>a\<close>: node \<open>i\<close> holds the sum of
  \<open>a\<close> over the half-open interval \<open>(i - lowbit i, i]\<close>.
\<close>

definition fen_inv :: "int \<Rightarrow> (int \<Rightarrow> int64) \<Rightarrow> (int \<Rightarrow> int64) \<Rightarrow> bool" where
  "fen_inv n T a \<longleftrightarrow> (\<forall>i. 1 \<le> i \<and> i \<le> n \<longrightarrow> T i = sum a {i - lowbit i<..i})"

text \<open>Sequences of point updates, and the array a brute-force simulation keeps.\<close>

fun updates :: "fenwick \<Rightarrow> (int \<times> int64) list \<Rightarrow> fenwick option" where
  "updates s [] = Some s"
| "updates s ((idx, delta) # us) = Option.bind (update s idx delta) (\<lambda>s'. updates s' us)"

fun brute_updates :: "(int \<Rightarrow> int64) \<Rightarrow> (int \<times> int64) list \<Rightarrow> (int \<Rightarrow> int64)" where
  "brute_updates a [] = a"
| "brute_updates a ((idx, delta) # us) = brute_updates (a(idx := a idx + delta)) us"

text \<open>
  The loop invariant of \<open>fast_search\<close> at position \<open>i\<close>, remaining budget \<open>v\<close> and
  window width \<open>w\<close>: every prefix up to \<open>i\<close> is below \<open>val\<close>, and the answer is at most
  \<open>i + w\<close> when that index exists.
\<close>

definition fs_inv ::
  "int \<Rightarrow> (int \<Rightarrow> int64) \<Rightarrow> int64 \<Rightarrow> int \<Rightarrow> int64 \<Rightarrow> int \<Rightarrow> bool" where
  "fs_inv n a val i v w \<longleftrightarrow>
     0 \<le> i \<and> i \<le> n \<and> v = val - 1 - sum a {0<..i} \<and>
     (\<forall>j. 1 \<le> j \<and> j \<le> i \<longrightarrow> sum a {0<..j} < val) \<and>
     (i + w \<le> n \<longrightarrow> val \<le> sum a {0<..i + w})"

text \<open>
  The mutating operations of the tree, and the logical array each of them implies:
  \<open>update\<close> adds to one element, \<open>construct\<close> and \<open>fast_construct\<close> install the given
  array, \<open>clear\<close> zeroes it.
\<close>

datatype fen_op =
    Update int int64
  | Construct "int \<Rightarrow> int64"
  | FastConstruct "int \<Rightarrow> int64"
  | Clear

fun apply_op :: "fenwick \<Rightarrow> fen_op \<Rightarrow> fenwick option" where
  "apply_op s (Update idx delta) = update s idx delta"
| "apply_op s (Construct a) = construct s a"
| "apply_op s (FastConstruct a) = Some (fst (fast_construct s a))"
| "apply_op s Clear = Some (clear s)"

fun run_ops :: "fenwick \<Rightarrow> fen_op list \<Rightarrow> fenwick option" where
  "run_ops s [] = Some s"
| "run_ops s (x # xs) = Option.bind (apply_op s x) (\<lambda>s'. run_ops s' xs)"

fun logical_op :: "(int \<Rightarrow> int64) \<Rightarrow> fen_op \<Rightarrow> (int \<Rightarrow> int64)" where
  "logical_op a (Update idx delta) = a(idx := a idx + delta)"
| "logical_op a (Construct arr) = arr"
| "logical_op a (FastConstruct arr) = arr"
| "logical_op a Clear = (\<lambda>_. 0)"

fun logical_array :: "(int \<Rightarrow> int64) \<Rightarrow> fen_op list \<Rightarrow> (int \<Rightarrow> int64)" where
  "logical_array a [] = a"
| "logical_array a (x # xs) = logical_array (logical_op a x) xs"

fun valid_op :: "int \<Rightarrow> fen_op \<Rightarrow> bool" where
  "valid_op n (Update idx delta) = (1 \<le> idx \<and> idx \<le> n)"
| "valid_op n (Construct arr) = True"
| "valid_op n (FastConstruct arr) = True"
| "valid_op n Clear = True"

text \<open>Sequences of range updates, and the brute-force value of one element.\<close>

fun rupq_updates :: "fenwick \<Rightarrow> (int \<times> int \<times> int64) list \<Rightarrow> fenwick option" where
  "rupq_updates s [] = Some s"
| "rupq_updates s ((l, r, delta) # us) =
     Option.bind (rupq_update s l r delta) (\<lambda>s'. rupq_updates s' us)"

definition rupq_brute :: "(int \<times> int \<times> int64) list \<Rightarrow> int \<Rightarrow> int64" where
  "rupq_brute us idx = (\<Sum>(l, r, delta) \<leftarrow> us. if l \<le> idx \<and> idx \<le> r then delta else 0)"

text \<open>Sequences of \<open>FenwickRURQ::update\<close> calls.\<close>

fun rurq_updates :: "fenwick_rurq \<Rightarrow> (int \<times> int \<times> int64) list \<Rightarrow> fenwick_rurq option" where
  "rurq_updates s [] = Some s"
| "rurq_updates s ((l, r, delta) # us) =
     Option.bind (rurq_update s l r delta) (\<lambda>s'. rurq_updates s' us)"

text \<open>
  The brute-force simulation the comments of fenwick_rurq.h promise: every update adds
  \<open>delta\<close> to each \<open>a[x]\<close> with \<open>l \<le> x \<le> r\<close> (that is \<open>rupq_brute\<close>), and a range sum adds
  up \<open>a[l'] .. a[r']\<close>.
\<close>

definition rurq_brute_range_sum :: "(int \<times> int \<times> int64) list \<Rightarrow> int \<Rightarrow> int \<Rightarrow> int64" where
  "rurq_brute_range_sum us l' r' = (\<Sum>x \<leftarrow> [l'..r']. rupq_brute us x)"

text \<open>Sequences of point updates and the grid a brute-force simulation keeps.\<close>

fun updates2d ::
  "fenwick2d \<Rightarrow> (int \<times> int \<times> int64) list \<Rightarrow> (fault + fenwick2d) option" where
  "updates2d s [] = Some (Inr s)"
| "updates2d s ((x, y, delta) # us) =
     Option.bind (update2d s x y delta)
       (\<lambda>r. case r of Inl e \<Rightarrow> Some (Inl e) | Inr s' \<Rightarrow> updates2d s' us)"

fun brute_grid ::
  "(int \<Rightarrow> int \<Rightarrow> int64) \<Rightarrow> (int \<times> int \<times> int64) list \<Rightarrow> (int \<Rightarrow> int \<Rightarrow> int64)" where
  "brute_grid g [] = g"
| "brute_grid g ((x, y, delta) # us) = brute_grid (g(x := (g x)(y := g x y + delta))) us"

text \<open>
  The invariant of the two-dimensional tree, relative to a grid \<open>g\<close>: cell \<open>(x, y)\<close>
  holds the sum of \<open>g\<close> over \<open>(x - lowbit x, x] \<times> (y - lowbit y, y]\<close>.
\<close>

definition inv2d :: "int \<Rightarrow> (int \<Rightarrow> int64) \<Rightarrow> (int \<Rightarrow> int \<Rightarrow> int64) \<Rightarrow> bool" where
  "inv2d n T g \<longleftrightarrow>
     (\<forall>x y. 1 \<le> x \<and> x \<le> n \<and> 1 \<le> y \<and> y \<le> n \<longrightarrow>
        T ((n + 1) * y + x) = (\<Sum>i\<in>{x - lowbit x<..x}. \<Sum>j\<in>{y - lowbit y<..y}. g i j))"

text \<open>
  The minimum of \<open>a\<close> over a finite index set, seeded with the sentinel as the code seeds
  its accumulators.
\<close>

definition range_min :: "(int \<Rightarrow> int) \<Rightarrow> int set \<Rightarrow> int" where
  "range_min a S = Min (insert INT_MAX (a ` S))"

text \<open>
  The invariant of the structure: every value is at most the sentinel, \<open>lbit[i]\<close> is the
  minimum over \<open>(i - lowbit i, i]\<close> and \<open>rbit[i]\<close> the minimum over
  \<open>[i, i + lowbit i)\<close>, cut at \<open>n\<close>.
\<close>

definition rmq_inv :: "fenwick_rmq \<Rightarrow> bool" where
  "rmq_inv s \<longleftrightarrow>
     (\<forall>i. rmq_a s i \<le> INT_MAX) \<and>
     (\<forall>i. 1 \<le> i \<and> i \<le> rmq_n s \<longrightarrow>
        rmq_lbit s i = range_min (rmq_a s) {i - lowbit i<..i}) \<and>
     (\<forall>i. 1 \<le> i \<and> i \<le> rmq_n s \<longrightarrow>
        rmq_rbit s i = range_min (rmq_a s) {i..min (rmq_n s) (i + lowbit i - 1)})"

text \<open>
  What the running variables of \<open>update\<close> hold, for a changed position \<open>idx\<close> and a node
  range \<open>[lo, hi]\<close>: \<open>lmin\<close> is the minimum from \<open>lr\<close> (exclusive, or inclusive after
  the single-element read) to \<open>idx - 1\<close>, and \<open>rmin\<close> the minimum from \<open>idx + 1\<close> to
  \<open>rl\<close> (exclusive, or inclusive after the read).
\<close>

definition left_ok :: "(int \<Rightarrow> int) \<Rightarrow> int \<Rightarrow> int \<Rightarrow> sides \<Rightarrow> bool" where
  "left_ok a idx lo sd \<longleftrightarrow>
     sd_ll sd = sd_lr sd - lowbit (sd_lr sd) \<and> lo - 1 \<le> sd_lr sd \<and> sd_lr sd \<le> idx - 1 \<and>
     (sd_lmin sd = range_min a {sd_lr sd<..idx - 1} \<or>
      (lo \<le> sd_lr sd \<and> sd_lmin sd = range_min a {sd_lr sd..idx - 1}))"

definition right_ok :: "(int \<Rightarrow> int) \<Rightarrow> int \<Rightarrow> int \<Rightarrow> int \<Rightarrow> sides \<Rightarrow> bool" where
  "right_ok a n idx hi sd \<longleftrightarrow>
     sd_rr sd = sd_rl sd + lowbit (sd_rl sd) \<and> idx + 1 \<le> sd_rl sd \<and> sd_rl sd \<le> hi + 1 \<and>
     (sd_rmin sd = range_min a {idx + 1..min n (sd_rl sd - 1)} \<or>
      (sd_rl sd \<le> min n hi \<and> sd_rmin sd = range_min a {idx + 1..sd_rl sd}))"

text \<open>
  Interleaved calls: a list of operations is run from left to right, the results of the
  queries are collected in order. The shadow array is kept by plain assignment, and a
  query on it is a direct scan of \<open>a[from..to]\<close>.
\<close>

datatype rmq_op = RUpdate int int | RQuery int int

fun rmq_run :: "fenwick_rmq \<Rightarrow> rmq_op list \<Rightarrow> (int list \<times> fenwick_rmq) option" where
  "rmq_run s [] = Some ([], s)"
| "rmq_run s (RUpdate idx val # ops) = Option.bind (rmq_update s idx val) (\<lambda>s'. rmq_run s' ops)"
| "rmq_run s (RQuery from to # ops) =
     Option.bind (rmq_query s from to) (\<lambda>(res, s').
       map_option (\<lambda>(rs, s''). (res # rs, s'')) (rmq_run s' ops))"

fun shadow_results :: "(int \<Rightarrow> int) \<Rightarrow> rmq_op list \<Rightarrow> int list" where
  "shadow_results a [] = []"
| "shadow_results a (RUpdate idx val # ops) = shadow_results (a(idx := val)) ops"
| "shadow_results a (RQuery from to # ops) = Min (a ` {from..to}) # shadow_results a ops"

fun rmq_valid :: "int \<Rightarrow> rmq_op \<Rightarrow> bool" where
  "rmq_valid n (RUpdate idx val) = (1 \<le> idx \<and> idx \<le> n \<and> val \<le> INT_MAX)"
| "rmq_valid n (RQuery from to) = (1 \<le> from \<and> from \<le> to \<and> to \<le> n)"

section \<open>The low bit along the chains of a tree\<close>

lemma lowbit_parity: "even (i - lowbit i)"
proof (cases "even i")
  case True
  then obtain m where m: "i = 2 * m" by (auto elim: evenE)
  show ?thesis by (simp add: m lowbit_even)
next
  case False
  then obtain m where m: "i = 2 * m + 1" by (auto elim: oddE)
  show ?thesis by (simp add: m lowbit_odd)
qed

text \<open>
  The step of the ascending chain: node \<open>i\<close> covers position \<open>j\<close> (that is,
  \<open>i - lowbit i < j \<le> i\<close>) exactly when \<open>i = j\<close> or \<open>i\<close> covers \<open>j + lowbit j\<close>.
\<close>

lemma chain_step:
  "1 \<le> j \<Longrightarrow> j \<le> i \<Longrightarrow>
   (i - lowbit i < j) = (i = j \<or> (j + lowbit j \<le> i \<and> i - lowbit i < j + lowbit j))"
proof (induction "nat i" arbitrary: i j rule: less_induct)
  case less
  show ?case
  proof (cases "even j")
    case False
    then obtain j' where j: "j = 2 * j' + 1" by (auto elim: oddE)
    have lj: "lowbit j = 1" by (simp add: j lowbit_odd)
    have "even (i - lowbit i)" by (rule lowbit_parity)
    then have "i - lowbit i \<noteq> j" using False by auto
    moreover have "0 < lowbit i" using less.prems lowbit_pos[of i] by simp
    ultimately show ?thesis using less.prems lj by auto
  next
    case True
    then obtain j' where j: "j = 2 * j'" by (auto elim: evenE)
    show ?thesis
    proof (cases "even i")
      case False
      then obtain i' where i: "i = 2 * i' + 1" by (auto elim: oddE)
      have li: "lowbit i = 1" by (simp add: i lowbit_odd)
      have "even (j + lowbit j)" by (simp add: j lowbit_even)
      then have "i \<noteq> j + lowbit j" using False by auto
      moreover have "i \<noteq> j" using True False by auto
      ultimately show ?thesis using less.prems li by auto
    next
      case Ti: True
      then obtain i' where i: "i = 2 * i'" by (auto elim: evenE)
      have "1 \<le> j'" "j' \<le> i'" "nat i' < nat i" using less.prems i j by auto
      from less.hyps[OF this(3) this(1) this(2)] show ?thesis
        unfolding i j lowbit_even by linarith
    qed
  qed
qed

section \<open>Sums over intervals, and the tree invariant\<close>

lemma sum_ivl_split:
  fixes f :: "int \<Rightarrow> int"
  shows "l \<le> m \<Longrightarrow> m \<le> u \<Longrightarrow> sum f {l<..u} = sum f {l<..m} + sum f {m<..u}"
proof -
  assume a: "l \<le> m" "m \<le> u"
  have "{l<..u} = {l<..m} \<union> {m<..u}" using a by (simp add: ivl_disj_un_two(6))
  moreover have "{l<..m} \<inter> {m<..u} = {}" by auto
  ultimately show ?thesis by (simp add: sum.union_disjoint)
qed

lemma sum_ivl_last:
  fixes f :: "int \<Rightarrow> int"
  shows "l < u \<Longrightarrow> sum f {l<..u} = sum f {l<..u - 1} + f u"
proof -
  assume "l < u"
  moreover have "{u - 1<..u} = {u}" by auto
  ultimately show ?thesis using sum_ivl_split[of l "u - 1" u f] by simp
qed

lemma sum_ivl_single:
  fixes f :: "int \<Rightarrow> int"
  shows "sum f {i - 1<..i} = f i"
proof -
  have "{i - 1<..i} = {i}" by auto
  then show ?thesis by simp
qed

lemma sum_fun_upd_add:
  fixes f :: "int \<Rightarrow> int"
  assumes "finite S"
  shows "sum (f(x := f x + d)) S = sum f S + (if x \<in> S then d else 0)"
proof (cases "x \<in> S")
  case True
  have "sum (f(x := f x + d)) S = (f(x := f x + d)) x + sum (f(x := f x + d)) (S - {x})"
    using assms True by (simp add: sum.remove)
  also have "sum (f(x := f x + d)) (S - {x}) = sum f (S - {x})"
    by (rule sum.cong) auto
  finally show ?thesis using assms True by (simp add: sum.remove)
next
  case False
  have "sum (f(x := f x + d)) S = sum f S" using False by (intro sum.cong) auto
  then show ?thesis using False by simp
qed

lemma prefix_sum_loop_inv:
  "fen_inv n T a \<Longrightarrow> 0 \<le> k \<Longrightarrow> k \<le> n \<Longrightarrow> prefix_sum_loop T k acc = acc + sum a {0<..k}"
proof (induction "nat k" arbitrary: k acc rule: less_induct)
  case less
  show ?case
  proof (cases "k \<ge> 1")
    case True
    have lb: "0 < lowbit k" "lowbit k \<le> k" using True lowbit_gt0 lowbit_le by auto
    have "prefix_sum_loop T k acc = prefix_sum_loop T (k - lowbit k) (acc + T k)"
      using True by (subst prefix_sum_loop.simps) simp
    also have "\<dots> = acc + T k + sum a {0<..k - lowbit k}"
      using less.hyps[of "k - lowbit k" "acc + T k"] less.prems lb by simp
    also have "T k = sum a {k - lowbit k<..k}"
      using less.prems True by (simp add: fen_inv_def)
    finally show ?thesis
      using sum_ivl_split[of 0 "k - lowbit k" k a] lb by simp
  next
    case False
    with less.prems have "k = 0" by simp
    then show ?thesis by (subst prefix_sum_loop.simps) simp
  qed
qed

lemma prefix_sum_inv:
  "fen_inv (fen_n s) (fen_T s) a \<Longrightarrow> 0 \<le> k \<Longrightarrow> k \<le> fen_n s \<Longrightarrow> prefix_sum s k = sum a {0<..k}"
  using prefix_sum_loop_inv[of "fen_n s" "fen_T s" a k 0] by (simp add: prefix_sum_def)

lemma lowbit_1: "lowbit 1 = 1"
  using lowbit_odd[of 0] by simp

lemma access_inv:
  assumes "fen_inv (fen_n s) (fen_T s) a" "1 \<le> idx" "idx \<le> fen_n s"
  shows "access s idx = a idx"
proof (cases "idx = 1")
  case True
  have "{0<..1::int} = {1}" by auto
  then show ?thesis using True assms by (simp add: access_def fen_inv_def lowbit_1)
next
  case False
  have p: "prefix_sum s idx = sum a {0<..idx}" "prefix_sum s (idx - 1) = sum a {0<..idx - 1}"
    using assms by (simp_all add: prefix_sum_inv)
  have q: "sum a {0<..idx} = sum a {0<..idx - 1} + a idx"
    using assms(2) by (intro sum_ivl_last) simp
  have "access s idx = prefix_sum s idx - prefix_sum s (idx - 1)"
    using False by (simp add: access_def)
  also have "\<dots> = a idx" unfolding p q by simp
  finally show ?thesis .
qed

lemma range_sum_inv:
  assumes "fen_inv (fen_n s) (fen_T s) a" "1 \<le> l" "l \<le> r" "r \<le> fen_n s"
  shows "range_sum s l r = sum a {l..r}"
proof -
  have eq: "{l..r} = {l - 1<..r}" by auto
  have p: "prefix_sum s r = sum a {0<..r}" "prefix_sum s (l - 1) = sum a {0<..l - 1}"
    using assms by (simp_all add: prefix_sum_inv)
  have q: "sum a {0<..r} = sum a {0<..l - 1} + sum a {l - 1<..r}"
    using assms by (intro sum_ivl_split) simp_all
  have e: "sum a {0<..l - 1} = 0" if "\<not> l > 1"
  proof -
    from that assms have "l = 1" by simp
    then show ?thesis by simp
  qed
  show ?thesis unfolding range_sum_def p q eq using e by simp
qed

section \<open>The operations keep the invariant\<close>

lemma update_loop_char:
  "1 \<le> idx \<Longrightarrow>
   update_loop n T idx delta =
     Some (\<lambda>i. if idx \<le> i \<and> i \<le> n \<and> i - lowbit i < idx then T i + delta else T i)"
proof (induction "nat (n + 1 - idx)" arbitrary: idx T rule: less_induct)
  case less
  show ?case
  proof (cases "idx \<le> n")
    case True
    have lb: "0 < lowbit idx" using less.prems lowbit_gt0 by auto
    let ?T = "T(idx := T idx + delta)"
    let ?j = "idx + lowbit idx"
    have "update_loop n T idx delta = update_loop n ?T ?j delta"
      using True by (subst update_loop.simps) simp
    also have "\<dots> = Some (\<lambda>i. if ?j \<le> i \<and> i \<le> n \<and> i - lowbit i < ?j then ?T i + delta else ?T i)"
      using less.hyps[of ?j ?T] less.prems lb True by simp
    also have "(\<lambda>i. if ?j \<le> i \<and> i \<le> n \<and> i - lowbit i < ?j then ?T i + delta else ?T i)
        = (\<lambda>i. if idx \<le> i \<and> i \<le> n \<and> i - lowbit i < idx then T i + delta else T i)"
    proof
      fix i
      show "(if ?j \<le> i \<and> i \<le> n \<and> i - lowbit i < ?j then ?T i + delta else ?T i)
        = (if idx \<le> i \<and> i \<le> n \<and> i - lowbit i < idx then T i + delta else T i)"
      proof (cases "idx \<le> i")
        case le: True
        from chain_step[OF less.prems le] lb True show ?thesis by auto
      next
        case False
        then show ?thesis using lb by auto
      qed
    qed
    finally show ?thesis .
  next
    case False
    then show ?thesis by (subst update_loop.simps) auto
  qed
qed

lemma update_char:
  "1 \<le> idx \<Longrightarrow>
   update s idx delta =
     Some (s\<lparr>fen_T := (\<lambda>i. if idx \<le> i \<and> i \<le> fen_n s \<and> i - lowbit i < idx
                              then fen_T s i + delta else fen_T s i)\<rparr>)"
  by (simp add: update_def update_loop_char)

lemma update_inv:
  assumes "fen_inv (fen_n s) (fen_T s) a" "1 \<le> idx"
  shows "\<exists>s'. update s idx delta = Some s' \<and> fen_n s' = fen_n s \<and> fen_nmask s' = fen_nmask s
     \<and> fen_inv (fen_n s') (fen_T s') (a(idx := a idx + delta))"
  unfolding update_char[OF assms(2)] using assms
  by (auto simp: fen_inv_def sum_fun_upd_add simp del: fun_upd_apply)

lemma clear_inv: "fen_inv (fen_n (clear s)) (fen_T (clear s)) (\<lambda>_. 0)"
  by (simp add: clear_def fen_inv_def)

lemma allocate_inv: "fen_inv (fen_n (allocate m)) (fen_T (allocate m)) (\<lambda>_. 0)"
  by (simp add: allocate_def fen_inv_def)

lemma construct_loop_inv:
  assumes "0 \<le> i" "i \<le> fen_n s"
    and "\<forall>j. i < j \<and> j \<le> fen_n s \<longrightarrow> fen_T s j = sum a {max (j - lowbit j) i<..j}"
  shows "\<exists>s'. construct_loop s a i = Some s' \<and> fen_n s' = fen_n s \<and> fen_nmask s' = fen_nmask s
     \<and> fen_inv (fen_n s') (fen_T s') a"
  using assms
proof (induction "nat i" arbitrary: i s rule: less_induct)
  case less
  show ?case
  proof (cases "i \<ge> 1")
    case False
    with less.prems have i0: "i = 0" by simp
    have "fen_inv (fen_n s) (fen_T s) a"
      unfolding fen_inv_def
    proof (intro allI impI)
      fix j assume j: "1 \<le> j \<and> j \<le> fen_n s"
      then have "0 \<le> j - lowbit j" using lowbit_le[of j] by simp
      then have "max (j - lowbit j) 0 = j - lowbit j" by simp
      with less.prems(3) j i0 show "fen_T s j = sum a {j - lowbit j<..j}" by simp
    qed
    then show ?thesis using i0 by (subst construct_loop.simps) simp
  next
    case True
    let ?s0 = "s\<lparr>fen_T := (fen_T s)(i := 0)\<rparr>"
    let ?s1 = "?s0\<lparr>fen_T := (\<lambda>k. if i \<le> k \<and> k \<le> fen_n ?s0 \<and> k - lowbit k < i
                              then fen_T ?s0 k + a i else fen_T ?s0 k)\<rparr>"
    have u: "update ?s0 i (a i) = Some ?s1" using True by (rule update_char)
    have step: "construct_loop s a i = construct_loop ?s1 a (i - 1)"
      using True u by (subst construct_loop.simps) simp
    have pre: "\<forall>j. i - 1 < j \<and> j \<le> fen_n ?s1 \<longrightarrow> fen_T ?s1 j = sum a {max (j - lowbit j) (i - 1)<..j}"
    proof (intro allI impI)
      fix j assume j: "i - 1 < j \<and> j \<le> fen_n ?s1"
      show "fen_T ?s1 j = sum a {max (j - lowbit j) (i - 1)<..j}"
      proof (cases "j = i")
        case ji: True
        have "0 < lowbit i" using True lowbit_gt0 by simp
        then have "max (i - lowbit i) (i - 1) = i - 1" by simp
        moreover have "{i - 1<..i} = {i}" by auto
        ultimately show ?thesis using ji j \<open>0 < lowbit i\<close> by simp
      next
        case False
        with j have ij: "i < j" by simp
        with less.prems(3) j have old: "fen_T s j = sum a {max (j - lowbit j) i<..j}" by simp
        show ?thesis
        proof (cases "j - lowbit j < i")
          case c: True
          then have "max (j - lowbit j) i = i" "max (j - lowbit j) (i - 1) = i - 1" by simp_all
          moreover have "sum a {i - 1<..j} = sum a {i - 1<..i} + sum a {i<..j}"
            using ij by (intro sum_ivl_split) simp_all
          moreover have "{i - 1<..i} = {i}" by auto
          ultimately show ?thesis using old c ij j by simp
        next
          case c: False
          then have "max (j - lowbit j) i = j - lowbit j" "max (j - lowbit j) (i - 1) = j - lowbit j" by simp_all
          then show ?thesis using old c ij by simp
        qed
      qed
    qed
    have "\<exists>s'. construct_loop ?s1 a (i - 1) = Some s' \<and> fen_n s' = fen_n ?s1 \<and> fen_nmask s' = fen_nmask ?s1
     \<and> fen_inv (fen_n s') (fen_T s') a"
      using True less.prems(2) by (intro less.hyps[OF _ _ _ pre]) simp_all
    then show ?thesis unfolding step by simp
  qed
qed

lemma construct_inv:
  assumes "0 \<le> fen_n s"
  shows "\<exists>s'. construct s a = Some s' \<and> fen_n s' = fen_n s \<and> fen_nmask s' = fen_nmask s
     \<and> fen_inv (fen_n s') (fen_T s') a"
  unfolding construct_def using assms by (intro construct_loop_inv) simp_all

lemma cumulate_loop_char:
  "1 \<le> i \<Longrightarrow>
   cumulate_loop n a i =
     (\<lambda>k. if i \<le> k \<and> k \<le> n then a (i - 1) + sum a {i - 1<..k} else a k)"
proof (induction "nat (n + 1 - i)" arbitrary: i a rule: less_induct)
  case less
  show ?case
  proof (cases "i \<le> n")
    case False
    then show ?thesis by (subst cumulate_loop.simps) auto
  next
    case True
    let ?a = "a(i := a i + a (i - 1))"
    have "cumulate_loop n a i = cumulate_loop n ?a (i + 1)"
      using True by (subst cumulate_loop.simps) simp
    also have "\<dots> = (\<lambda>k. if i + 1 \<le> k \<and> k \<le> n then ?a i + sum ?a {i<..k} else ?a k)"
      using less.hyps[of "i + 1" ?a] less.prems True by (simp cong: if_cong del: fun_upd_apply)
    also have "\<dots> = (\<lambda>k. if i \<le> k \<and> k \<le> n then a (i - 1) + sum a {i - 1<..k} else a k)"
    proof
      fix k
      show "(if i + 1 \<le> k \<and> k \<le> n then ?a i + sum ?a {i<..k} else ?a k)
          = (if i \<le> k \<and> k \<le> n then a (i - 1) + sum a {i - 1<..k} else a k)"
      proof (cases "i + 1 \<le> k \<and> k \<le> n")
        case c: True
        have "sum ?a {i<..k} = sum a {i<..k}" by (rule sum.cong) auto
        moreover have "sum a {i - 1<..k} = sum a {i - 1<..i} + sum a {i<..k}"
          using c by (intro sum_ivl_split) simp_all
        ultimately show ?thesis using c by (simp add: sum_ivl_single)
      next
        case c: False
        show ?thesis using c True by (auto simp: sum_ivl_single)
      qed
    qed
    finally show ?thesis .
  qed
qed

lemma fill_loop_char:
  "fill_loop n a T i =
     (\<lambda>k. if i \<le> k \<and> k \<le> n
          then (if k - lowbit k = 0 then a k else a k - a (k - lowbit k)) else T k)"
proof (induction "nat (n + 1 - i)" arbitrary: i T rule: less_induct)
  case less
  show ?case
  proof (cases "i \<le> n")
    case False
    then show ?thesis by (subst fill_loop.simps) auto
  next
    case True
    let ?T = "T(i := (if i - lowbit i = 0 then a i else a i - a (i - lowbit i)))"
    have "fill_loop n a T i = fill_loop n a ?T (i + 1)"
      using True by (subst fill_loop.simps) simp
    also have "\<dots> = (\<lambda>k. if i + 1 \<le> k \<and> k \<le> n
          then (if k - lowbit k = 0 then a k else a k - a (k - lowbit k)) else ?T k)"
      using less.hyps[of "i + 1" ?T] True by simp
    also have "\<dots> = (\<lambda>k. if i \<le> k \<and> k \<le> n
          then (if k - lowbit k = 0 then a k else a k - a (k - lowbit k)) else T k)"
      using True by (intro ext) auto
    finally show ?thesis .
  qed
qed

lemma fast_construct_cumulative:
  assumes "fast_construct s arr = (s', a')"
  shows "a' 0 = 0" and "1 \<le> k \<Longrightarrow> k \<le> fen_n s \<Longrightarrow> a' k = sum arr {0<..k}"
proof -
  have a': "a' = cumulate_loop (fen_n s) (arr(0 := 0)) 1"
    using assms by (simp add: fast_construct_def Let_def)
  show "a' 0 = 0" unfolding a' by (simp add: cumulate_loop_char)
  assume k: "1 \<le> k" "k \<le> fen_n s"
  have "sum (arr(0 := 0)) {0<..k} = sum arr {0<..k}" by (rule sum.cong) auto
  then show "a' k = sum arr {0<..k}" unfolding a' using k by (simp add: cumulate_loop_char)
qed

lemma fast_construct_inv:
  assumes "fast_construct s arr = (s', a')"
  shows "fen_n s' = fen_n s \<and> fen_nmask s' = fen_nmask s \<and> fen_inv (fen_n s') (fen_T s') arr"
proof -
  have s': "s' = s\<lparr>fen_T := fill_loop (fen_n s) a' (fen_T s) 1\<rparr>"
    using assms by (auto simp add: fast_construct_def Let_def)
  have "fen_inv (fen_n s) (fill_loop (fen_n s) a' (fen_T s) 1) arr"
    unfolding fen_inv_def
  proof (intro allI impI)
    fix i assume i: "1 \<le> i \<and> i \<le> fen_n s"
    have lb: "0 < lowbit i" "lowbit i \<le> i" using i lowbit_gt0 lowbit_le by auto
    have ai: "a' i = sum arr {0<..i}" using fast_construct_cumulative(2)[OF assms] i by simp
    show "fill_loop (fen_n s) a' (fen_T s) 1 i = sum arr {i - lowbit i<..i}"
    proof (cases "i - lowbit i = 0")
      case True
      then show ?thesis using i ai by (simp add: fill_loop_char)
    next
      case False
      then have "1 \<le> i - lowbit i" "i - lowbit i \<le> fen_n s" using lb i by auto
      then have "a' (i - lowbit i) = sum arr {0<..i - lowbit i}"
        using fast_construct_cumulative(2)[OF assms] by simp
      moreover have "sum arr {0<..i} = sum arr {0<..i - lowbit i} + sum arr {i - lowbit i<..i}"
        using lb by (intro sum_ivl_split) simp_all
      ultimately show ?thesis using i ai False by (simp add: fill_loop_char)
    qed
  qed
  then show ?thesis by (simp add: s')
qed

section \<open>The two-pointer descents of fast_access and fast_range_sum\<close>

lemma prefix_sum_loop_acc: "prefix_sum_loop T k acc = acc + prefix_sum_loop T k 0"
proof (induction "nat k" arbitrary: k acc rule: less_induct)
  case less
  show ?case
  proof (cases "k \<ge> 1")
    case True
    have lb: "0 < lowbit k" using True lowbit_gt0 by auto
    have a: "prefix_sum_loop T k acc = prefix_sum_loop T (k - lowbit k) (acc + T k)"
      using True by (subst prefix_sum_loop.simps) simp
    have b: "prefix_sum_loop T (k - lowbit k) (acc + T k)
               = acc + T k + prefix_sum_loop T (k - lowbit k) 0"
      using less.hyps[of "k - lowbit k" "acc + T k"] True lb by simp
    have c: "prefix_sum_loop T (k - lowbit k) (0 + T k)
               = 0 + T k + prefix_sum_loop T (k - lowbit k) 0"
      using less.hyps[of "k - lowbit k" "0 + T k"] True lb by simp
    have d: "prefix_sum_loop T k 0 = prefix_sum_loop T (k - lowbit k) (0 + T k)"
      using True by (subst prefix_sum_loop.simps) simp
    show ?thesis unfolding a b d c by simp
  next
    case False
    then show ?thesis by (subst (1 2) prefix_sum_loop.simps) simp
  qed
qed

lemma prefix_sum_step:
  "1 \<le> k \<Longrightarrow> prefix_sum_loop T k 0 = T k + prefix_sum_loop T (k - lowbit k) 0"
  by (subst prefix_sum_loop.simps, subst prefix_sum_loop_acc) simp

lemma prefix_sum_loop_0: "prefix_sum_loop T 0 0 = 0"
  by (subst prefix_sum_loop.simps) simp

lemma fast_access_loop_char:
  "0 \<le> i \<Longrightarrow> 0 \<le> j \<Longrightarrow>
   fast_access_loop T acc i j = Some (acc + prefix_sum_loop T i 0 - prefix_sum_loop T j 0)"
proof (induction "nat i + nat j" arbitrary: i j acc rule: less_induct)
  case less
  show ?case
  proof (cases "i = j")
    case True
    then show ?thesis by (subst fast_access_loop.simps) simp
  next
    case False
    show ?thesis
    proof (cases "i > j")
      case True
      then have i1: "1 \<le> i" using less.prems by simp
      have lb: "0 < lowbit i" "lowbit i \<le> i" using i1 lowbit_gt0 lowbit_le by auto
      have "fast_access_loop T acc i j = fast_access_loop T (acc + T i) (i - lowbit i) j"
        using True by (subst fast_access_loop.simps) simp
      also have "\<dots> = Some (acc + T i + prefix_sum_loop T (i - lowbit i) 0 - prefix_sum_loop T j 0)"
        using less.prems lb by (intro less.hyps) auto
      finally show ?thesis using prefix_sum_step[OF i1, of T] by simp
    next
      case False
      with \<open>i \<noteq> j\<close> have lt: "i < j" by simp
      then have j1: "1 \<le> j" using less.prems by simp
      have lb: "0 < lowbit j" "lowbit j \<le> j" using j1 lowbit_gt0 lowbit_le by auto
      have "fast_access_loop T acc i j = fast_access_loop T (acc - T j) i (j - lowbit j)"
        using lt by (subst fast_access_loop.simps) simp
      also have "\<dots> = Some (acc - T j + prefix_sum_loop T i 0 - prefix_sum_loop T (j - lowbit j) 0)"
        using less.prems lb by (intro less.hyps) auto
      finally show ?thesis using prefix_sum_step[OF j1, of T] by simp
    qed
  qed
qed

lemma fast_access_eq:
  assumes "1 \<le> idx"
  shows "fast_access s idx = Some (prefix_sum s idx - prefix_sum s (idx - 1))"
proof -
  have lb: "0 < lowbit idx" "lowbit idx \<le> idx" using assms lowbit_gt0 lowbit_le by auto
  have "fast_access s idx = Some (fen_T s idx + prefix_sum_loop (fen_T s) (idx - lowbit idx) 0
          - prefix_sum_loop (fen_T s) (idx - 1) 0)"
    unfolding fast_access_def using assms lb by (intro fast_access_loop_char) simp_all
  then show ?thesis using prefix_sum_step[OF assms, of "fen_T s"] by (simp add: prefix_sum_def)
qed

lemma fast_range_sum_loop_char:
  "0 \<le> i \<Longrightarrow> 0 \<le> j \<Longrightarrow>
   fast_range_sum_loop T acc i j = Some (acc + prefix_sum_loop T i 0 - prefix_sum_loop T j 0)"
proof (induction "nat i + nat j" arbitrary: i j acc rule: less_induct)
  case less
  show ?case
  proof (cases "i = j")
    case True
    then show ?thesis by (subst fast_range_sum_loop.simps) simp
  next
    case False
    show ?thesis
    proof (cases "i > j")
      case True
      then have i1: "1 \<le> i" using less.prems by simp
      have lb: "0 < lowbit i" "lowbit i \<le> i" using i1 lowbit_gt0 lowbit_le by auto
      have "fast_range_sum_loop T acc i j = fast_range_sum_loop T (acc + T i) (i - lowbit i) j"
        using True by (subst fast_range_sum_loop.simps) simp
      also have "\<dots> = Some (acc + T i + prefix_sum_loop T (i - lowbit i) 0 - prefix_sum_loop T j 0)"
        using less.prems lb by (intro less.hyps) auto
      finally show ?thesis using prefix_sum_step[OF i1, of T] by simp
    next
      case False
      with \<open>i \<noteq> j\<close> have lt: "i < j" by simp
      then have j1: "1 \<le> j" using less.prems by simp
      have lb: "0 < lowbit j" "lowbit j \<le> j" using j1 lowbit_gt0 lowbit_le by auto
      have "fast_range_sum_loop T acc i j = fast_range_sum_loop T (acc - T j) i (j - lowbit j)"
        using lt by (subst fast_range_sum_loop.simps) simp
      also have "\<dots> = Some (acc - T j + prefix_sum_loop T i 0 - prefix_sum_loop T (j - lowbit j) 0)"
        using less.prems lb by (intro less.hyps) auto
      finally show ?thesis using prefix_sum_step[OF j1, of T] by simp
    qed
  qed
qed

lemma fast_range_sum_eq:
  assumes "1 \<le> l" "1 \<le> r"
  shows "fast_range_sum s l r = Some (range_sum s l r)"
proof -
  have lb: "0 < lowbit r" "lowbit r \<le> r" using assms lowbit_gt0 lowbit_le by auto
  have "fast_range_sum s l r = Some (fen_T s r + prefix_sum_loop (fen_T s) (r - lowbit r) 0
          - prefix_sum_loop (fen_T s) (l - 1) 0)"
    unfolding fast_range_sum_def using assms lb by (intro fast_range_sum_loop_char) simp_all
  moreover have "l = 1" if "\<not> l > 1" using that assms(1) by simp
  ultimately show ?thesis
    using prefix_sum_step[OF assms(2), of "fen_T s"] prefix_sum_loop_0[of "fen_T s"]
    by (auto simp add: prefix_sum_def range_sum_def)
qed

lemma fast_access_access:
  assumes "1 \<le> idx"
  shows "fast_access s idx = Some (access s idx)"
proof (cases "idx = 1")
  case True
  have "prefix_sum s 1 = fen_T s 1"
    using prefix_sum_step[of 1 "fen_T s"] prefix_sum_loop_0[of "fen_T s"]
    by (simp add: prefix_sum_def lowbit_1)
  moreover have "prefix_sum s 0 = 0" by (simp add: prefix_sum_def prefix_sum_loop_0)
  ultimately show ?thesis using True fast_access_eq[of 1 s] by (simp add: access_def)
next
  case False
  then show ?thesis using fast_access_eq[OF assms, of s] by (simp add: access_def)
qed

section \<open>Sequences of point updates\<close>

lemma updates_inv:
  assumes "fen_inv (fen_n s) (fen_T s) a" "\<forall>(idx, delta) \<in> set us. 1 \<le> idx \<and> idx \<le> fen_n s"
  shows "\<exists>s'. updates s us = Some s' \<and> fen_n s' = fen_n s \<and> fen_nmask s' = fen_nmask s
     \<and> fen_inv (fen_n s') (fen_T s') (brute_updates a us)"
  using assms
proof (induction us arbitrary: s a)
  case Nil
  then show ?case by simp
next
  case (Cons u us)
  obtain idx delta where u: "u = (idx, delta)" by (cases u)
  from Cons.prems u have idx: "1 \<le> idx" "idx \<le> fen_n s" by auto
  from update_inv[OF Cons.prems(1) idx(1), of delta] obtain s1 where
    s1: "update s idx delta = Some s1" "fen_n s1 = fen_n s" "fen_nmask s1 = fen_nmask s"
      "fen_inv (fen_n s1) (fen_T s1) (a(idx := a idx + delta))" by blast
  have "\<forall>(idx, delta) \<in> set us. 1 \<le> idx \<and> idx \<le> fen_n s1" using Cons.prems(2) s1(2) by auto
  from Cons.IH[OF s1(4) this] obtain s' where
    "updates s1 us = Some s'" "fen_n s' = fen_n s1" "fen_nmask s' = fen_nmask s1"
    "fen_inv (fen_n s') (fen_T s') (brute_updates (a(idx := a idx + delta)) us)" by blast
  then show ?case using s1 u by (simp del: fun_upd_apply)
qed

section \<open>Searching: the linear scan and the binary descent\<close>

lemma lowbit_add_pow: "2 ^ Suc e dvd i \<Longrightarrow> lowbit (i + 2 ^ e) = 2 ^ e"
proof (induction e arbitrary: i)
  case 0
  then obtain c where "i = 2 * c" by (auto elim: dvdE)
  then show ?case by (simp add: lowbit_odd)
next
  case (Suc e)
  then obtain c where c: "i = 2 ^ Suc (Suc e) * c" by (auto elim: dvdE)
  let ?h = "2 ^ Suc e * c :: int"
  have "2 ^ Suc e dvd ?h" by simp
  from Suc.IH[OF this] have "lowbit (?h + 2 ^ e) = 2 ^ e" .
  moreover have "i + 2 ^ Suc e = 2 * (?h + 2 ^ e)" by (simp add: c algebra_simps)
  ultimately show ?case by (simp only: lowbit_even) simp
qed

lemma search_loop_spec:
  "1 \<le> i \<Longrightarrow> i \<le> fen_n s + 1 \<Longrightarrow>
   i \<le> search_loop s val i \<and> search_loop s val i \<le> fen_n s + 1 \<and>
   (\<forall>k. i \<le> k \<and> k < search_loop s val i \<longrightarrow> prefix_sum s k < val) \<and>
   (search_loop s val i \<le> fen_n s \<longrightarrow> val \<le> prefix_sum s (search_loop s val i))"
proof (induction "nat (fen_n s + 1 - i)" arbitrary: i rule: less_induct)
  case less
  show ?case
  proof (cases "i \<le> fen_n s")
    case False
    then have "search_loop s val i = fen_n s + 1" by (subst search_loop.simps) simp
    then show ?thesis using less.prems False by auto
  next
    case True
    show ?thesis
    proof (cases "prefix_sum s i \<ge> val")
      case c: True
      then have "search_loop s val i = i" using True by (subst search_loop.simps) simp
      then show ?thesis using True c by auto
    next
      case c: False
      then have e: "search_loop s val i = search_loop s val (i + 1)"
        using True by (subst search_loop.simps) simp
      have IH: "i + 1 \<le> search_loop s val (i + 1) \<and> search_loop s val (i + 1) \<le> fen_n s + 1 \<and>
         (\<forall>k. i + 1 \<le> k \<and> k < search_loop s val (i + 1) \<longrightarrow> prefix_sum s k < val) \<and>
         (search_loop s val (i + 1) \<le> fen_n s \<longrightarrow> val \<le> prefix_sum s (search_loop s val (i + 1)))"
        using True less.prems by (intro less.hyps) auto
      show ?thesis unfolding e
      proof (intro conjI allI impI)
        fix k assume k: "i \<le> k \<and> k < search_loop s val (i + 1)"
        show "prefix_sum s k < val"
        proof (cases "k = i")
          case True then show ?thesis using c by simp
        next
          case False then show ?thesis using k IH by auto
        qed
      qed (use IH in auto)
    qed
  qed
qed

lemma prefix_mono:
  fixes a :: "int \<Rightarrow> int" and n :: int
  assumes "\<forall>i. 1 \<le> i \<and> i \<le> n \<longrightarrow> 0 \<le> a i" "0 \<le> j" "j \<le> k" "k \<le> n"
  shows "sum a {0<..j} \<le> sum a {0<..k}"
proof -
  have "sum a {0<..k} = sum a {0<..j} + sum a {j<..k}"
    by (rule sum_ivl_split) (use assms in simp_all)
  moreover have "0 \<le> sum a {j<..k}" by (rule sum_nonneg) (use assms in auto)
  ultimately show ?thesis by simp
qed

lemma wrap64_id: "- (2 ^ 63) \<le> x \<Longrightarrow> x < 2 ^ 63 \<Longrightarrow> wrap64 x = x"
  by (simp add: wrap64_def)

lemma fs_budget_wrap:
  assumes nonneg: "\<forall>i. 1 \<le> i \<and> i \<le> n \<longrightarrow> 0 \<le> a i"
    and "fs_inv n a val i v (w + w)" "0 \<le> w" "i + w \<le> n" "val < 2 ^ 63"
    and "T = sum a {i<..i + w}" "T \<le> v"
  shows "wrap64 (v - T) = v - T"
proof -
  have i0: "0 \<le> i" "i \<le> n" and v: "v = val - 1 - sum a {0<..i}"
    using assms(2) by (simp_all add: fs_inv_def)
  have "0 \<le> sum a {0<..i}" by (rule sum_nonneg) (use nonneg i0 in auto)
  moreover have "0 \<le> T" unfolding assms(6) by (rule sum_nonneg) (use nonneg i0 assms(4) in auto)
  ultimately have "0 \<le> v - T" "v - T < 2 ^ 63" using v assms(5,7) by simp_all
  then show ?thesis by (intro wrap64_id) simp_all
qed

lemma fs_inv_advance:
  assumes nonneg: "\<forall>i. 1 \<le> i \<and> i \<le> n \<longrightarrow> 0 \<le> a i"
    and "fs_inv n a val i v (w + w)" "0 \<le> w" "i + w \<le> n"
    and "T = sum a {i<..i + w}" "T \<le> v"
  shows "fs_inv n a val (i + w) (v - T) w"
proof -
  have i0: "0 \<le> i" using assms(2) by (simp add: fs_inv_def)
  have split: "sum a {0<..i + w} = sum a {0<..i} + sum a {i<..i + w}"
    using i0 assms(3) by (intro sum_ivl_split) simp_all
  have v: "v = val - 1 - sum a {0<..i}" using assms(2) by (simp add: fs_inv_def)
  have lt: "sum a {0<..i + w} < val" using split v assms(5,6) by simp
  have "sum a {0<..j} < val" if "1 \<le> j \<and> j \<le> i + w" for j
  proof -
    have "sum a {0<..j} \<le> sum a {0<..i + w}"
      using that assms(4) by (intro prefix_mono[OF nonneg]) simp_all
    then show ?thesis using lt by simp
  qed
  moreover have "i + w + w \<le> n \<longrightarrow> val \<le> sum a {0<..i + w + w}"
    using assms(2) by (simp add: fs_inv_def add.assoc)
  ultimately show ?thesis using i0 assms(3,4) v split assms(5) by (simp add: fs_inv_def)
qed

lemma fs_inv_stay:
  assumes "fs_inv n a val i v (w + w)" "0 \<le> w"
    and "i + w \<le> n \<longrightarrow> (T = sum a {i<..i + w} \<and> \<not> T \<le> v)"
  shows "fs_inv n a val i v w"
proof -
  have i0: "0 \<le> i" using assms(1) by (simp add: fs_inv_def)
  have split: "sum a {0<..i + w} = sum a {0<..i} + sum a {i<..i + w}"
    using i0 assms(2) by (intro sum_ivl_split) simp_all
  have v: "v = val - 1 - sum a {0<..i}" using assms(1) by (simp add: fs_inv_def)
  have "i + w \<le> n \<longrightarrow> val \<le> sum a {0<..i + w}" using assms(3) split v by auto
  then show ?thesis using assms(1) by (simp add: fs_inv_def)
qed

lemma fast_search_loop_0: "fast_search_loop n T v i 0 = Some (i + 1)"
  by (subst fast_search_loop.simps) simp

lemma fast_search_loop_pow:
  assumes inv: "fen_inv n T a" and nonneg: "\<forall>i. 1 \<le> i \<and> i \<le> n \<longrightarrow> 0 \<le> a i"
    and vb: "val < 2 ^ 63"
  shows "2 ^ Suc e dvd i \<Longrightarrow> fs_inv n a val i v (2 ^ Suc e) \<Longrightarrow>
     \<exists>i' v'. fast_search_loop n T v i (2 ^ e) = Some (i' + 1) \<and> fs_inv n a val i' v' 1"
proof (induction e arbitrary: i v)
  case 0
  have d: "drop_bit 1 (1::int) = 0" by simp
  have unf: "fast_search_loop n T v i 1 =
    (if i + 1 > n then Some (i + 1)
     else if T (i + 1) \<le> v then Some (i + 1 + 1) else Some (i + 1))"
    by (subst fast_search_loop.simps) (simp add: d fast_search_loop_0)
  have i0: "0 \<le> i" using 0(2) by (simp add: fs_inv_def)
  have f2: "fs_inv n a val i v (1 + 1)" using 0(2) by simp
  have "\<exists>i' v'. fast_search_loop n T v i 1 = Some (i' + 1) \<and> fs_inv n a val i' v' 1"
  proof (cases "i + 1 > n")
    case True
    then have "fs_inv n a val i v 1"
      by (intro fs_inv_stay[where T = 0 and w = 1, OF f2]) simp_all
    moreover have "fast_search_loop n T v i 1 = Some (i + 1)" using True unf by simp
    ultimately show ?thesis by blast
  next
    case False
    have lb: "lowbit (i + 1) = 1" using lowbit_add_pow[of 0 i] 0(1) by simp
    have Tii: "T (i + 1) = sum a {i<..i + 1}"
      using inv[unfolded fen_inv_def, rule_format, of "i + 1"] False i0 lb by simp
    show ?thesis
    proof (cases "T (i + 1) \<le> v")
      case True
      have "fs_inv n a val (i + 1) (v - T (i + 1)) 1"
        by (rule fs_inv_advance[where w = 1, OF nonneg f2]) (use False Tii True in simp_all)
      moreover have "fast_search_loop n T v i 1 = Some ((i + 1) + 1)"
        using True False unf by simp
      ultimately show ?thesis by blast
    next
      case c: False
      have "fs_inv n a val i v 1"
        by (rule fs_inv_stay[where T = "T (i + 1)" and w = 1, OF f2]) (use Tii c in simp_all)
      moreover have "fast_search_loop n T v i 1 = Some (i + 1)" using c False unf by simp
      ultimately show ?thesis by blast
    qed
  qed
  then show ?case by simp
next
  case (Suc e)
  let ?m = "2 ^ Suc e :: int"
  have d: "drop_bit 1 ?m = 2 ^ e" by (simp add: drop_bit_Suc)
  have mpos: "0 < ?m" by simp
  have unf: "fast_search_loop n T v i ?m =
    (if i + ?m > n then fast_search_loop n T v i (2 ^ e)
     else if T (i + ?m) \<le> v
       then fast_search_loop n T (wrap64 (v - T (i + ?m))) (i + ?m) (2 ^ e)
     else fast_search_loop n T v i (2 ^ e))"
    using mpos by (subst fast_search_loop.simps) (simp only: d, simp)
  have "(2::int) ^ Suc e dvd 2 ^ Suc (Suc e)" by simp
  then have dvd1: "2 ^ Suc e dvd i" using Suc.prems(1) by (rule dvd_trans)
  have dvd2: "2 ^ Suc e dvd i + ?m" using dvd1 by simp
  have two: "(2::int) ^ Suc (Suc e) = ?m + ?m" by simp
  have f2: "fs_inv n a val i v (?m + ?m)" using Suc.prems(2) unfolding two .
  have i0: "0 \<le> i" using Suc.prems(2) by (simp add: fs_inv_def)
  have m1: "1 \<le> ?m" by (rule one_le_power) simp
  have m0: "0 \<le> ?m" by simp
  show ?case
  proof (cases "i + ?m > n")
    case True
    then have "fs_inv n a val i v ?m"
      by (intro fs_inv_stay[where T = 0 and w = ?m, OF f2]) simp_all
    from Suc.IH[OF dvd1 this] show ?thesis using True unf by simp
  next
    case False
    have lb: "lowbit (i + ?m) = ?m" using lowbit_add_pow[OF Suc.prems(1)] .
    have ge1: "1 \<le> i + ?m" using i0 m1 by linarith
    have Tii: "T (i + ?m) = sum a {i<..i + ?m}"
      using inv[unfolded fen_inv_def, rule_format, of "i + ?m"] False ge1 lb by simp
    show ?thesis
    proof (cases "T (i + ?m) \<le> v")
      case True
      have w: "wrap64 (v - T (i + ?m)) = v - T (i + ?m)"
        by (rule fs_budget_wrap[where w = ?m, OF nonneg f2]) (use False Tii True vb in simp_all)
      have "fs_inv n a val (i + ?m) (v - T (i + ?m)) ?m"
        by (rule fs_inv_advance[where w = ?m, OF nonneg f2]) (use False Tii True in simp_all)
      from Suc.IH[OF dvd2 this] show ?thesis using True False unf w by simp
    next
      case c: False
      have "fs_inv n a val i v ?m"
        by (rule fs_inv_stay[where T = "T (i + ?m)" and w = ?m, OF f2]) (use Tii c in simp_all)
      from Suc.IH[OF dvd1 this] show ?thesis using c False unf by simp
    qed
  qed
qed

lemma fast_search_search:
  assumes "1 \<le> m" "fen_n s = fen_n (allocate m)" "fen_nmask s = fen_nmask (allocate m)"
    and inv: "fen_inv (fen_n s) (fen_T s) a"
    and nonneg: "\<forall>i. 1 \<le> i \<and> i \<le> fen_n s \<longrightarrow> 0 \<le> a i"
    and vl: "- (2 ^ 63) < val" and vb: "val < 2 ^ 63"
  shows "fast_search s val = Some (search s val)"
proof -
  have w0: "wrap64 (val - 1) = val - 1" using vl vb by (intro wrap64_id) simp_all
  define e where "e = nat (m - 1)"
  have m: "nat m = Suc e" using assms(1) by (simp add: e_def)
  have n: "fen_n s = 2 ^ Suc e - 1" using assms(2) m by (simp add: allocate_def)
  have nm: "fen_nmask s = 2 ^ e" using assms(3) by (simp add: allocate_def e_def)
  have "fs_inv (fen_n s) a val 0 (val - 1) (2 ^ Suc e)"
    unfolding fs_inv_def n by simp
  from fast_search_loop_pow[OF inv nonneg vb _ this] obtain i' v' where
    r: "fast_search_loop (fen_n s) (fen_T s) (val - 1) 0 (2 ^ e) = Some (i' + 1)"
    and f: "fs_inv (fen_n s) a val i' v' 1" by auto
  have fs: "fast_search s val = Some (i' + 1)" using r by (simp add: fast_search_def nm w0)
  have n1: "1 \<le> fen_n s + 1" using f by (simp add: fs_inv_def)
  note sp = search_loop_spec[of 1 s val, OF _ n1, simplified, folded search_def]
  have ps: "prefix_sum s k = sum a {0<..k}" if "0 \<le> k" "k \<le> fen_n s" for k
    using prefix_sum_inv[OF inv that] .
  have "search s val = i' + 1"
  proof (rule ccontr)
    assume ne: "search s val \<noteq> i' + 1"
    show False
    proof (cases "search s val < i' + 1")
      case True
      then have le: "search s val \<le> fen_n s" "1 \<le> search s val" "search s val \<le> i'"
        using f sp by (auto simp: fs_inv_def)
      then have "val \<le> prefix_sum s (search s val)" using sp by simp
      moreover have "sum a {0<..search s val} < val" using f le by (simp add: fs_inv_def)
      ultimately show False using ps[of "search s val"] le by simp
    next
      case False
      with ne have gt: "i' + 1 < search s val" by simp
      then have le: "i' + 1 \<le> fen_n s" "0 \<le> i'" using sp f by (auto simp: fs_inv_def)
      then have "val \<le> sum a {0<..i' + 1}" using f by (simp add: fs_inv_def)
      moreover have "prefix_sum s (i' + 1) < val" using sp gt le by simp
      ultimately show False using ps[of "i' + 1"] le by simp
    qed
  qed
  then show ?thesis using fs by simp
qed

section \<open>Fenwick: the invariant after every mutating operation\<close>

lemma allocate_n_nonneg: "0 \<le> fen_n (allocate m)"
  by (simp add: allocate_def)

lemma apply_op_inv:
  assumes "fen_inv (fen_n s) (fen_T s) a" "valid_op (fen_n s) x" "0 \<le> fen_n s"
  shows "\<exists>s'. apply_op s x = Some s' \<and> fen_n s' = fen_n s \<and> fen_nmask s' = fen_nmask s
     \<and> fen_inv (fen_n s') (fen_T s') (logical_op a x)"
proof (cases x)
  case (Update idx delta)
  then show ?thesis using update_inv[OF assms(1), of idx delta] assms(2) by simp
next
  case (Construct arr)
  then show ?thesis using construct_inv[OF assms(3), of arr] by simp
next
  case (FastConstruct arr)
  obtain s' a' where fc: "fast_construct s arr = (s', a')" by (cases "fast_construct s arr")
  from fast_construct_inv[OF fc] have "fen_n s' = fen_n s" "fen_nmask s' = fen_nmask s"
    "fen_inv (fen_n s') (fen_T s') arr" by blast+
  then show ?thesis using fc FastConstruct by simp
next
  case Clear
  then show ?thesis using clear_inv[of s] by (simp add: clear_def)
qed

lemma run_ops_inv:
  assumes "fen_inv (fen_n s) (fen_T s) a" "\<forall>x \<in> set xs. valid_op (fen_n s) x" "0 \<le> fen_n s"
  shows "\<exists>s'. run_ops s xs = Some s' \<and> fen_n s' = fen_n s \<and> fen_nmask s' = fen_nmask s
     \<and> fen_inv (fen_n s') (fen_T s') (logical_array a xs)"
  using assms
proof (induction xs arbitrary: s a)
  case Nil
  then show ?case by simp
next
  case (Cons x xs)
  from apply_op_inv[OF Cons.prems(1) _ Cons.prems(3), of x] Cons.prems(2) obtain s1 where
    s1: "apply_op s x = Some s1" "fen_n s1 = fen_n s" "fen_nmask s1 = fen_nmask s"
      "fen_inv (fen_n s1) (fen_T s1) (logical_op a x)" by auto
  have "\<forall>x \<in> set xs. valid_op (fen_n s1) x" "0 \<le> fen_n s1"
    using Cons.prems s1(2) by auto
  from Cons.IH[OF s1(4) this] obtain s' where
    "run_ops s1 xs = Some s'" "fen_n s' = fen_n s1" "fen_nmask s' = fen_nmask s1"
    "fen_inv (fen_n s') (fen_T s') (logical_array (logical_op a x) xs)" by blast
  then show ?case using s1 by simp
qed

text \<open>
  Claim C3. On a tree of size \<open>n\<close>, after any sequence of \<open>update\<close> (with
  \<open>1 \<le> idx \<le> n\<close>), \<open>construct\<close>, \<open>fast_construct\<close> and \<open>clear\<close>, every operation
  returns, and for every \<open>1 \<le> i \<le> n\<close> the node \<open>T[i]\<close> is the sum of the logical array
  over the half-open interval \<open>(i - lowbit i, i]\<close>.
\<close>

theorem tree_invariant_after_ops:
  assumes "\<forall>x \<in> set ops. valid_op (fen_n (allocate m)) x"
  shows "\<exists>s. run_ops (allocate m) ops = Some s \<and> fen_n s = fen_n (allocate m) \<and>
           (\<forall>i. 1 \<le> i \<and> i \<le> fen_n s \<longrightarrow>
              fen_T s i = sum (logical_array (\<lambda>_. 0) ops) {i - lowbit i<..i})"
  using run_ops_inv[OF allocate_inv assms allocate_n_nonneg]
  by (auto simp: fen_inv_def)

lemma lowbit_2: "lowbit 2 = 2"
  using lowbit_even[of 1] by (simp add: lowbit_1)

theorem tree_invariant_after_ops_witness:
  "\<exists>s. run_ops (allocate 2) [Update 1 5, Clear, Construct (\<lambda>i. 10 * i), Update 2 3,
            FastConstruct (\<lambda>i. i + 1), Update 1 4] = Some s
       \<and> fen_n s = 3 \<and> fen_T s 2 = 9"
proof -
  have s12: "{0<..2::int} = {1, 2}" by auto
  show ?thesis
  using tree_invariant_after_ops[of "[Update 1 5, Clear, Construct (\<lambda>i. 10 * i), Update 2 3,
            FastConstruct (\<lambda>i. i + 1), Update 1 4]" 2]
  by (auto simp: allocate_def lowbit_2 s12)
qed

section \<open>The fast variants agree with the plain ones\<close>

text \<open>
  Claim C5. After any sequence of point updates (each with \<open>1 \<le> idx \<le> n\<close>) on a freshly
  allocated tree, the updates return, and for every \<open>1 \<le> idx \<le> n\<close> both \<open>access(idx)\<close>
  and \<open>fast_access(idx)\<close> return the logical element \<open>a[idx]\<close> of the brute-force
  simulation; in particular they agree.
\<close>

theorem access_fast_access_agree:
  assumes "\<forall>(i, delta) \<in> set us. 1 \<le> i \<and> i \<le> fen_n (allocate m)"
    and "1 \<le> idx" "idx \<le> fen_n (allocate m)"
  shows "\<exists>s. updates (allocate m) us = Some s \<and>
           access s idx = brute_updates (\<lambda>_. 0) us idx \<and>
           fast_access s idx = Some (access s idx)"
proof -
  from updates_inv[OF allocate_inv assms(1)] obtain s where
    s: "updates (allocate m) us = Some s" "fen_n s = fen_n (allocate m)"
       "fen_inv (fen_n s) (fen_T s) (brute_updates (\<lambda>_. 0) us)" by blast
  have "access s idx = brute_updates (\<lambda>_. 0) us idx"
    using access_inv[OF s(3) assms(2)] assms(3) s(2) by simp
  moreover have "fast_access s idx = Some (access s idx)"
    using assms(2) by (rule fast_access_access)
  ultimately show ?thesis using s(1) by blast
qed

theorem access_fast_access_agree_witness:
  "\<exists>s. updates (allocate 3) [(3, 4), (6, -2), (3, 10)] = Some s \<and>
       access s 3 = 14 \<and> fast_access s 3 = Some 14"
  using access_fast_access_agree[of "[(3, 4), (6, -2), (3, 10)]" 3 3]
  by (auto simp: allocate_def)

text \<open>
  Claim C6. After any sequence of point updates on a freshly allocated tree, for every
  \<open>1 \<le> l \<le> r \<le> n\<close>, \<open>range_sum(l, r)\<close> and \<open>fast_range_sum(l, r)\<close> return the same
  value, the sum \<open>a[l] + ... + a[r]\<close> of the simulated array.
\<close>

theorem range_sum_fast_range_sum_agree:
  assumes "\<forall>(i, delta) \<in> set us. 1 \<le> i \<and> i \<le> fen_n (allocate m)"
    and "1 \<le> l" "l \<le> r" "r \<le> fen_n (allocate m)"
  shows "\<exists>s. updates (allocate m) us = Some s \<and>
           range_sum s l r = sum (brute_updates (\<lambda>_. 0) us) {l..r} \<and>
           fast_range_sum s l r = Some (range_sum s l r)"
proof -
  from updates_inv[OF allocate_inv assms(1)] obtain s where
    s: "updates (allocate m) us = Some s" "fen_n s = fen_n (allocate m)"
       "fen_inv (fen_n s) (fen_T s) (brute_updates (\<lambda>_. 0) us)" by blast
  have "range_sum s l r = sum (brute_updates (\<lambda>_. 0) us) {l..r}"
    using range_sum_inv[OF s(3) assms(2,3)] assms(4) s(2) by simp
  moreover have "fast_range_sum s l r = Some (range_sum s l r)"
    using assms(2,3) by (intro fast_range_sum_eq) simp_all
  ultimately show ?thesis using s(1) by blast
qed

theorem range_sum_fast_range_sum_agree_witness:
  "\<exists>s. updates (allocate 3) [(3, 4), (6, -2), (5, 10)] = Some s \<and>
       range_sum s 3 6 = 12 \<and> fast_range_sum s 3 6 = Some 12"
proof -
  have e: "{3..6::int} = {3, 4, 5, 6}" by auto
  show ?thesis
    using range_sum_fast_range_sum_agree[of "[(3, 4), (6, -2), (5, 10)]" 3 3 6]
    by (auto simp: allocate_def e)
qed

text \<open>
  Claim C7. \<open>fast_construct\<close> on an array \<open>arr\<close> (in any tree state), followed by
  \<open>access(i)\<close> for \<open>1 \<le> i \<le> n\<close>, gives back the original \<open>arr[i]\<close>; the array handed to
  \<open>fast_construct\<close> comes back as its running cumulative sums, with \<open>a[0] = 0\<close>.
\<close>

theorem fast_construct_roundtrip:
  assumes "fast_construct s arr = (s', a')" "1 \<le> i" "i \<le> fen_n s"
  shows "access s' i = arr i \<and> a' i = sum arr {1..i} \<and> a' 0 = 0"
proof -
  from fast_construct_inv[OF assms(1)] have n: "fen_n s' = fen_n s"
    and inv: "fen_inv (fen_n s') (fen_T s') arr" by blast+
  have "access s' i = arr i" using access_inv[OF inv assms(2)] assms(3) n by simp
  moreover have "{1..i} = {0<..i}" by auto
  ultimately show ?thesis
    using fast_construct_cumulative[OF assms(1)] assms(2,3) by simp
qed

theorem fast_construct_roundtrip_witness:
  "access (fst (fast_construct (allocate 2) (\<lambda>i. 2 * i + 1))) 3 = 7 \<and>
   snd (fast_construct (allocate 2) (\<lambda>i. 2 * i + 1)) 3 = 15 \<and>
   snd (fast_construct (allocate 2) (\<lambda>i. 2 * i + 1)) 0 = 0"
proof -
  have e: "{1..3::int} = {1, 2, 3}" by auto
  show ?thesis
    using fast_construct_roundtrip[of "allocate 2" "\<lambda>i. 2 * i + 1"
        "fst (fast_construct (allocate 2) (\<lambda>i. 2 * i + 1))"
        "snd (fast_construct (allocate 2) (\<lambda>i. 2 * i + 1))" 3]
    by (simp add: allocate_def e)
qed

section \<open>Fenwick: range update, point query\<close>

lemma rupq_update_inv:
  assumes inv: "fen_inv (fen_n s) (fen_T s) d" and lr: "1 \<le> l" "l \<le> r" "r \<le> fen_n s"
  shows "\<exists>s' d'. rupq_update s l r delta = Some s' \<and> fen_n s' = fen_n s \<and>
           fen_inv (fen_n s') (fen_T s') d' \<and>
           (\<forall>idx. 1 \<le> idx \<and> idx \<le> fen_n s \<longrightarrow>
              sum d' {0<..idx} = sum d {0<..idx} + (if l \<le> idx \<and> idx \<le> r then delta else 0))"
proof -
  let ?d1 = "d(l := d l + delta)"
  from update_inv[OF inv lr(1), of delta] obtain s1 where
    s1: "update s l delta = Some s1" "fen_n s1 = fen_n s"
        "fen_inv (fen_n s1) (fen_T s1) ?d1" by blast
  have d1: "sum ?d1 {0<..idx} = sum d {0<..idx} + (if l \<le> idx then delta else 0)" for idx
    using lr(1) by (simp add: sum_fun_upd_add del: fun_upd_apply)
  show ?thesis
  proof (cases "r < fen_n s")
    case False
    then have "rupq_update s l r delta = Some s1" using s1 by (simp add: rupq_update_def)
    moreover have "\<forall>idx. 1 \<le> idx \<and> idx \<le> fen_n s \<longrightarrow>
              sum ?d1 {0<..idx} = sum d {0<..idx} + (if l \<le> idx \<and> idx \<le> r then delta else 0)"
      using False lr d1 by auto
    ultimately show ?thesis using s1 by blast
  next
    case True
    let ?d2 = "?d1(r + 1 := ?d1 (r + 1) + (- delta))"
    have r1: "1 \<le> r + 1" using lr by simp
    from update_inv[OF s1(3) r1, of "- delta"] obtain s2 where
      s2: "update s1 (r + 1) (- delta) = Some s2" "fen_n s2 = fen_n s1"
          "fen_inv (fen_n s2) (fen_T s2) ?d2" by blast
    have "rupq_update s l r delta = Some s2" using s1 s2 True by (simp add: rupq_update_def)
    moreover have "sum ?d2 {0<..idx} = sum d {0<..idx} + (if l \<le> idx \<and> idx \<le> r then delta else 0)" for idx
    proof -
      have "sum ?d2 {0<..idx} = sum ?d1 {0<..idx} + (if r + 1 \<in> {0<..idx} then - delta else 0)"
        by (rule sum_fun_upd_add) simp
      then show ?thesis using d1[of idx] lr by (auto simp del: fun_upd_apply)
    qed
    ultimately show ?thesis using s1 s2 by (intro exI[of _ s2] exI[of _ ?d2]) simp
  qed
qed

lemma rupq_updates_inv:
  assumes "fen_inv (fen_n s) (fen_T s) d"
    and "\<forall>(l, r, delta) \<in> set us. 1 \<le> l \<and> l \<le> r \<and> r \<le> fen_n s"
  shows "\<exists>s' d'. rupq_updates s us = Some s' \<and> fen_n s' = fen_n s \<and>
           fen_inv (fen_n s') (fen_T s') d' \<and>
           (\<forall>idx. 1 \<le> idx \<and> idx \<le> fen_n s \<longrightarrow>
              sum d' {0<..idx} = sum d {0<..idx} + rupq_brute us idx)"
  using assms
proof (induction us arbitrary: s d)
  case Nil
  then show ?case by (auto simp: rupq_brute_def)
next
  case (Cons u us)
  obtain l r delta where u: "u = (l, r, delta)" by (cases u)
  from Cons.prems(2) u have lr: "1 \<le> l" "l \<le> r" "r \<le> fen_n s" by auto
  from rupq_update_inv[OF Cons.prems(1) lr, of delta] obtain s1 d1 where
    s1: "rupq_update s l r delta = Some s1" "fen_n s1 = fen_n s"
        "fen_inv (fen_n s1) (fen_T s1) d1"
        "\<forall>idx. 1 \<le> idx \<and> idx \<le> fen_n s \<longrightarrow>
              sum d1 {0<..idx} = sum d {0<..idx} + (if l \<le> idx \<and> idx \<le> r then delta else 0)"
    by blast
  have "\<forall>(l, r, delta) \<in> set us. 1 \<le> l \<and> l \<le> r \<and> r \<le> fen_n s1"
    using Cons.prems(2) s1(2) by auto
  from Cons.IH[OF s1(3) this] obtain s' d' where
    s': "rupq_updates s1 us = Some s'" "fen_n s' = fen_n s1"
        "fen_inv (fen_n s') (fen_T s') d'"
        "\<forall>idx. 1 \<le> idx \<and> idx \<le> fen_n s1 \<longrightarrow>
              sum d' {0<..idx} = sum d1 {0<..idx} + rupq_brute us idx"
    by blast
  have "\<forall>idx. 1 \<le> idx \<and> idx \<le> fen_n s \<longrightarrow>
              sum d' {0<..idx} = sum d {0<..idx} + rupq_brute (u # us) idx"
    using s1(2,4) s'(4) by (auto simp: rupq_brute_def u)
  then show ?case using s1 s' u by (intro exI[of _ s'] exI[of _ d']) simp
qed

text \<open>
  Claim C10. On a freshly allocated tree driven only through \<open>rupq_update(l, r, delta)\<close>
  with \<open>1 \<le> l \<le> r \<le> n\<close>, every update returns, and for every \<open>1 \<le> idx \<le> n\<close>
  \<open>rupq_access(idx)\<close> is the sum of \<open>delta\<close> over exactly the updates whose range
  \<open>[l, r]\<close> contains \<open>idx\<close>.
\<close>

theorem rupq_access_correct:
  assumes "\<forall>(l, r, delta) \<in> set us. 1 \<le> l \<and> l \<le> r \<and> r \<le> fen_n (allocate m)"
    and "1 \<le> idx" "idx \<le> fen_n (allocate m)"
  shows "\<exists>s. rupq_updates (allocate m) us = Some s \<and> rupq_access s idx = rupq_brute us idx"
proof -
  from rupq_updates_inv[OF allocate_inv assms(1)] obtain s d where
    s: "rupq_updates (allocate m) us = Some s" "fen_n s = fen_n (allocate m)"
       "fen_inv (fen_n s) (fen_T s) d"
       "\<forall>idx. 1 \<le> idx \<and> idx \<le> fen_n (allocate m) \<longrightarrow>
              sum d {0<..idx} = sum (\<lambda>_. 0) {0<..idx} + rupq_brute us idx"
    by blast
  have "rupq_access s idx = sum d {0<..idx}"
    unfolding rupq_access_def using prefix_sum_inv[OF s(3), of idx] assms s(2) by simp
  then show ?thesis using s(1,4) assms(2,3) by simp
qed

theorem rupq_access_correct_witness:
  "\<exists>s. rupq_updates (allocate 3) [(2, 5, 10), (4, 7, 1), (1, 3, 100)] = Some s \<and>
       rupq_access s 4 = 11"
  using rupq_access_correct[of "[(2, 5, 10), (4, 7, 1), (1, 3, 100)]" 3 4]
  by (auto simp: allocate_def rupq_brute_def)

section \<open>Fenwick: fast_search against search\<close>

text \<open>
  Claim C4 says that on every tree whose logical array has \<open>a[i] \<ge> 0\<close>, for every value
  \<open>val\<close>, \<open>fast_search(val)\<close> equals \<open>search(val)\<close>, the smallest \<open>k\<close> with
  \<open>prefix_sum(k) \<ge> val\<close>, which is also what the comment of \<open>fast_search\<close> promises.
  The code starts with \<open>val--\<close> on an \<open>int64_t\<close>: at the least value, \<open>-2^63\<close>, the
  decrement overflows and leaves \<open>2^63 - 1\<close> on the two's-complement machine. On the
  freshly allocated tree of order 1 (\<open>n = 1\<close>, \<open>a[1] = 0\<close>) the descent then takes the
  only node and returns \<open>n + 1 = 2\<close>, while \<open>search\<close> returns 1, the smallest \<open>k\<close>
  indeed, since \<open>a[1] = 0 \<ge> -2^63\<close>.
\<close>

theorem fast_search_least_value_diverges:
  "fast_search (allocate 1) (- (2 ^ 63)) = Some 2 \<and> search (allocate 1) (- (2 ^ 63)) = 1"
  by code_simp

text \<open>
  Away from that overflow the two functions agree. In a tree of \<open>allocate(m)\<close>'s shape
  (\<open>n = 2^m - 1\<close>, \<open>nmask = 2^(m-1)\<close>, \<open>m \<ge> 1\<close>) whose logical array \<open>a\<close> has
  \<open>a[i] \<ge> 0\<close> for \<open>1 \<le> i \<le> n\<close> and a total \<open>a[1] + ... + a[n]\<close> below \<open>2^63\<close>, for every
  64-bit \<open>val\<close> above \<open>-2^63\<close>: \<open>fast_search(val)\<close> returns what \<open>search(val)\<close> returns,
  that is the smallest \<open>k\<close> in \<open>1..n\<close> with \<open>prefix_sum(k) \<ge> val\<close>, or \<open>n + 1\<close> when
  there is none, and every prefix sum that \<open>search\<close> compares is a non-negative 64-bit
  value.
\<close>

theorem fast_search_agrees:
  assumes "1 \<le> m" "fen_n s = fen_n (allocate m)" "fen_nmask s = fen_nmask (allocate m)"
    and "fen_inv (fen_n s) (fen_T s) a"
    and "\<forall>i. 1 \<le> i \<and> i \<le> fen_n s \<longrightarrow> 0 \<le> a i"
    and "sum a {0<..fen_n s} < 2 ^ 63"
    and "- (2 ^ 63) < val" "val < 2 ^ 63"
  shows "fast_search s val = Some (search s val) \<and>
         1 \<le> search s val \<and> search s val \<le> fen_n s + 1 \<and>
         (\<forall>k. 1 \<le> k \<and> k < search s val \<longrightarrow> prefix_sum s k < val) \<and>
         (search s val \<le> fen_n s \<longrightarrow> val \<le> prefix_sum s (search s val)) \<and>
         (\<forall>k. 1 \<le> k \<and> k \<le> fen_n s \<longrightarrow> 0 \<le> prefix_sum s k \<and> prefix_sum s k < 2 ^ 63)"
proof -
  have n0: "0 \<le> fen_n s" using assms(2) allocate_n_nonneg[of m] by simp
  then have n1: "1 \<le> fen_n s + 1" by simp
  have rep: "0 \<le> prefix_sum s k \<and> prefix_sum s k < 2 ^ 63" if k: "1 \<le> k \<and> k \<le> fen_n s" for k
  proof -
    have ps: "prefix_sum s k = sum a {0<..k}"
      using k by (intro prefix_sum_inv[OF assms(4)]) simp_all
    have "sum a {0<..k} \<le> sum a {0<..fen_n s}"
      using k by (intro prefix_mono[OF assms(5)]) simp_all
    moreover have "0 \<le> sum a {0<..k}"
      by (rule sum_nonneg) (use assms(5) k in auto)
    ultimately show ?thesis using ps assms(6) by simp
  qed
  from search_loop_spec[of 1 s val, OF _ n1]
  show ?thesis
    using fast_search_search[OF assms(1-5) assms(7,8)] rep by (simp add: search_def)
qed

theorem fast_search_agrees_witness:
  "fast_search \<lparr>fen_n = 3, fen_nmask = 2, fen_T = (\<lambda>_. 0)(1 := 5, 2 := 8, 3 := 8)\<rparr> 9 = Some 3 \<and>
   search \<lparr>fen_n = 3, fen_nmask = 2, fen_T = (\<lambda>_. 0)(1 := 5, 2 := 8, 3 := 8)\<rparr> 9 = 3"
proof -
  let ?s = "\<lparr>fen_n = 3, fen_nmask = 2, fen_T = (\<lambda>_. 0)(1 := 5, 2 := 8, 3 := 8)\<rparr>"
  let ?a = "(\<lambda>_. 0)(1 := 5, 2 := 3, 3 := 8) :: int \<Rightarrow> int"
  have i: "i = 1 \<or> i = 2 \<or> i = 3" if "1 \<le> i \<and> i \<le> 3" for i :: int using that by arith
  have l3: "lowbit 3 = 1" using lowbit_odd[of 1] by simp
  have s1: "{0<..1::int} = {1}" and s2: "{0<..2::int} = {1, 2}" and s3: "{2<..3::int} = {3}"
    and s03: "{0<..3::int} = {1, 2, 3}" by auto
  have inv: "fen_inv (fen_n ?s) (fen_T ?s) ?a"
    unfolding fen_inv_def
  proof (intro allI impI)
    fix i :: int assume "1 \<le> i \<and> i \<le> fen_n ?s"
    then have "i = 1 \<or> i = 2 \<or> i = 3" using i by simp
    then show "fen_T ?s i = sum ?a {i - lowbit i<..i}"
      by (elim disjE) (simp_all add: lowbit_1 lowbit_2 l3 s1 s2 s3)
  qed
  have nn: "\<forall>i. 1 \<le> i \<and> i \<le> fen_n ?s \<longrightarrow> 0 \<le> ?a i" by simp
  have tot: "sum ?a {0<..fen_n ?s} < 2 ^ 63" by (simp add: s03)
  have n: "fen_n ?s = fen_n (allocate 2)" "fen_nmask ?s = fen_nmask (allocate 2)"
    by (simp_all add: allocate_def)
  have f: "fast_search ?s 9 = Some 3"
    unfolding fast_search_def
    by (simp add: fast_search_loop.simps drop_bit_Suc wrap64_def)
  from fast_search_agrees[OF _ n inv nn tot, of 9] f show ?thesis by simp
qed

section \<open>FenwickRURQ: the update of the second tree\<close>

text \<open>
  Claim C1 says that after any sequence of \<open>update(l, r, delta)\<close> with
  \<open>1 \<le> l \<le> r \<le> n\<close>, \<open>range_sum(l', r')\<close> equals the brute-force sum. The code adds
  \<open>delta * r\<close> to the second tree at \<open>r + 1\<close> where the difference-array encoding needs
  \<open>- delta * r\<close>; whenever \<open>r < n\<close> the prefix sums past \<open>r\<close> are wrong. With \<open>m = 2\<close>
  (\<open>n = 3\<close>), after the single call \<open>update(1, 1, 5)\<close> the code's \<open>range_sum(1, 2)\<close> is
  \<open>-5\<close>, while the array \<open>[5, 0, 0]\<close> has \<open>a[1] + a[2] = 5\<close>.
\<close>

theorem rurq_range_sum_diverges:
  "map_option (\<lambda>s. rurq_range_sum s 1 2) (rurq_updates (rurq_new 2) [(1, 1, 5)]) = Some (- 5)
   \<and> rurq_brute_range_sum [(1, 1, 5)] 1 2 = 5"
  by code_simp

section \<open>FenwickRMQ: requests outside the range\<close>

text \<open>
  Claim C9. For every structure and every pair \<open>(from, to)\<close> with \<open>from > to\<close>, or
  \<open>from < 1\<close>, or \<open>to > n\<close>, \<open>query(from, to)\<close> returns the sentinel \<open>INT_MAX\<close> and leaves
  the structure as it was.
\<close>

theorem rmq_query_out_of_range:
  "from > to \<or> from < 1 \<or> to > rmq_n s \<Longrightarrow> rmq_query s from to = Some (INT_MAX, s)"
  by (auto simp: rmq_query_def)

theorem rmq_query_out_of_range_witness:
  "rmq_query (rmq_new 5) 4 2 = Some (2147483647, rmq_new 5) \<and>
   rmq_query (rmq_new 5) 0 2 = Some (2147483647, rmq_new 5) \<and>
   rmq_query (rmq_new 5) 3 6 = Some (2147483647, rmq_new 5)"
  using rmq_query_out_of_range[where ?from = 4 and ?to = 2 and s = "rmq_new 5"]
    rmq_query_out_of_range[where ?from = 0 and ?to = 2 and s = "rmq_new 5"]
    rmq_query_out_of_range[where ?from = 3 and ?to = 6 and s = "rmq_new 5"]
  by (simp add: INT_MAX_def rmq_new_def)

section \<open>Fenwick2D: prefix sums, updates and range sums\<close>

lemma flat_inj:
  fixes n :: int
  assumes "0 \<le> x" "x \<le> n" "0 \<le> x'" "x' \<le> n" "(n + 1) * y + x = (n + 1) * y' + x'"
  shows "x = x' \<and> y = y'"
proof -
  have "((n + 1) * y + x) mod (n + 1) = x" using assms(1,2) by simp
  moreover have "((n + 1) * y' + x') mod (n + 1) = x'" using assms(3,4) by simp
  ultimately have x: "x = x'" using assms(5) by simp
  then have "(n + 1) * y = (n + 1) * y'" using assms(5) by simp
  moreover have "n + 1 \<noteq> 0" using assms(1,2) by simp
  ultimately show ?thesis using x by simp
qed

text \<open>
  Up to order 15 (\<open>n + 1 \<le> 2^15\<close>) neither the cell count nor any cell index of the
  grid overflows, and every cell \<open>(x, y)\<close> with \<open>0 \<le> x, y \<le> n\<close> is inside the
  allocation.
\<close>

lemma wrap32_id: "0 \<le> x \<Longrightarrow> x < 2 ^ 31 \<Longrightarrow> wrap32 x = x"
  by (simp add: wrap32_def)

lemma cells2d_small:
  assumes "0 \<le> n" "n < 2 ^ 15"
  shows "cells2d n = (n + 1) * (n + 1)"
proof -
  define p where "p = (n + 1) * (n + 1)"
  have "(n + 1) * (n + 1) \<le> 2 ^ 15 * 2 ^ 15" using assms by (intro mult_mono) simp_all
  then have b: "p < 2 ^ 31" by (simp add: p_def)
  have c: "0 \<le> p" by (simp add: p_def)
  have w1: "wrap32 (n + 1) = n + 1" using assms by (intro wrap32_id) simp_all
  have w2: "wrap32 p = p" using b c by (rule wrap32_id[rotated])
  show ?thesis using w2 by (simp only: cells2d_def w1 p_def)
qed

lemma cell2d_small:
  assumes "0 \<le> n" "n < 2 ^ 15" "0 \<le> x" "x \<le> n" "0 \<le> y" "y \<le> n"
  shows "cell2d n x y = (n + 1) * y + x"
    and "0 \<le> (n + 1) * y + x" and "(n + 1) * y + x < cells2d n"
proof -
  define p where "p = (n + 1) * y"
  define q where "q = (n + 1) * n"
  have a: "p \<le> q" unfolding p_def q_def using assms by (intro mult_left_mono) simp_all
  have "(n + 1) * n \<le> 2 ^ 15 * 2 ^ 15" using assms by (intro mult_mono) simp_all
  then have b: "q \<le> 1073741824" by (simp add: q_def)
  have c: "0 \<le> p" using assms by (simp add: p_def)
  have n15: "n < 32768" using assms(2) by simp
  have w1: "wrap32 (n + 1) = n + 1" using assms by (intro wrap32_id) simp_all
  have w2: "wrap32 p = p" using a b c by (intro wrap32_id) simp_all
  have w3: "wrap32 (p + x) = p + x" using a b c n15 assms(3,4) by (intro wrap32_id) simp_all
  show "cell2d n x y = (n + 1) * y + x" using w2 w3 by (simp only: cell2d_def w1 p_def)
  show "0 \<le> (n + 1) * y + x" using c assms(3) unfolding p_def by simp
  have "(n + 1) * (n + 1) = q + n + 1" by (simp add: q_def algebra_simps)
  then have "p + x < (n + 1) * (n + 1)" using a assms(4) by simp
  then show "(n + 1) * y + x < cells2d n"
    unfolding cells2d_small[OF assms(1,2)] p_def .
qed

lemma prefix_sum2d_inner_column:
  assumes "0 \<le> n" "n < 2 ^ 15" "0 \<le> x" "x \<le> n"
  shows "yy \<le> n \<Longrightarrow>
     prefix_sum2d_inner n (cells2d n) T x yy acc
       = Inr (prefix_sum_loop (\<lambda>k. T ((n + 1) * k + x)) yy acc)"
proof (induction "nat yy" arbitrary: yy acc rule: less_induct)
  case less
  show ?case
  proof (cases "yy \<ge> 1")
    case True
    have lb: "0 < lowbit yy" using True lowbit_gt0 by simp
    have y0: "0 \<le> yy" using True by simp
    note c = cell2d_small[OF assms y0 less.prems]
    have "prefix_sum2d_inner n (cells2d n) T x yy acc
        = prefix_sum2d_inner n (cells2d n) T x (yy - lowbit yy) (acc + T ((n + 1) * yy + x))"
      using True c(2,3) by (subst prefix_sum2d_inner.simps) (simp add: c(1))
    also have "\<dots> = Inr (prefix_sum_loop (\<lambda>k. T ((n + 1) * k + x)) (yy - lowbit yy)
                          (acc + T ((n + 1) * yy + x)))"
      using True lb less.prems by (intro less.hyps) simp_all
    also have "\<dots> = Inr (prefix_sum_loop (\<lambda>k. T ((n + 1) * k + x)) yy acc)"
      using True by (subst (2) prefix_sum_loop.simps) simp
    finally show ?thesis .
  next
    case False
    then show ?thesis
      by (subst prefix_sum2d_inner.simps, subst prefix_sum_loop.simps) simp
  qed
qed

lemma inv2d_column:
  assumes "inv2d n T g" "1 \<le> x" "x \<le> n"
  shows "fen_inv n (\<lambda>k. T ((n + 1) * k + x)) (\<lambda>j. \<Sum>i\<in>{x - lowbit x<..x}. g i j)"
  unfolding fen_inv_def
proof (intro allI impI)
  fix y assume "1 \<le> y \<and> y \<le> n"
  then have "T ((n + 1) * y + x) = (\<Sum>i\<in>{x - lowbit x<..x}. \<Sum>j\<in>{y - lowbit y<..y}. g i j)"
    using assms by (simp add: inv2d_def)
  also have "\<dots> = (\<Sum>j\<in>{y - lowbit y<..y}. \<Sum>i\<in>{x - lowbit x<..x}. g i j)"
    by (rule sum.swap)
  finally show "T ((n + 1) * y + x) = (\<Sum>j\<in>{y - lowbit y<..y}. \<Sum>i\<in>{x - lowbit x<..x}. g i j)" .
qed

lemma prefix_sum2d_inner_inv:
  assumes "inv2d n T g" "n < 2 ^ 15" "1 \<le> x" "x \<le> n" "0 \<le> y" "y \<le> n"
  shows "prefix_sum2d_inner n (cells2d n) T x y acc
           = Inr (acc + (\<Sum>i\<in>{x - lowbit x<..x}. \<Sum>j\<in>{0<..y}. g i j))"
proof -
  have n0: "0 \<le> n" and x0: "0 \<le> x" using assms(3,4) by simp_all
  have "prefix_sum_loop (\<lambda>k. T ((n + 1) * k + x)) y acc
          = acc + (\<Sum>j\<in>{0<..y}. \<Sum>i\<in>{x - lowbit x<..x}. g i j)"
    using prefix_sum_loop_inv[OF inv2d_column[OF assms(1,3,4)] assms(5,6)] .
  also have "(\<Sum>j\<in>{0<..y}. \<Sum>i\<in>{x - lowbit x<..x}. g i j)
           = (\<Sum>i\<in>{x - lowbit x<..x}. \<Sum>j\<in>{0<..y}. g i j)"
    by (rule sum.swap)
  finally show ?thesis
    unfolding prefix_sum2d_inner_column[OF n0 assms(2) x0 assms(4) assms(6)] by simp
qed

lemma prefix_sum2d_outer_inv:
  assumes "inv2d n T g" "n < 2 ^ 15" "0 \<le> y" "y \<le> n"
  shows "0 \<le> x \<Longrightarrow> x \<le> n \<Longrightarrow>
     prefix_sum2d_outer n (cells2d n) T x y acc
       = Inr (acc + (\<Sum>i\<in>{0<..x}. \<Sum>j\<in>{0<..y}. g i j))"
proof (induction "nat x" arbitrary: x acc rule: less_induct)
  case less
  show ?case
  proof (cases "x \<ge> 1")
    case True
    have lb: "0 < lowbit x" "lowbit x \<le> x" using True lowbit_gt0 lowbit_le by auto
    let ?R = "\<lambda>i. \<Sum>j\<in>{0<..y}. g i j"
    have inner: "prefix_sum2d_inner n (cells2d n) T x y acc
                   = Inr (acc + sum ?R {x - lowbit x<..x})"
      using prefix_sum2d_inner_inv[OF assms(1,2) True less.prems(2) assms(3,4)] .
    have "prefix_sum2d_outer n (cells2d n) T x y acc
        = prefix_sum2d_outer n (cells2d n) T (x - lowbit x) y (acc + sum ?R {x - lowbit x<..x})"
      using True by (subst prefix_sum2d_outer.simps) (simp add: inner)
    also have "\<dots> = Inr (acc + sum ?R {x - lowbit x<..x} + sum ?R {0<..x - lowbit x})"
      using less.prems lb by (intro less.hyps) simp_all
    finally show ?thesis
      using sum_ivl_split[of 0 "x - lowbit x" x ?R] lb by simp
  next
    case False
    with less.prems have "x = 0" by simp
    then show ?thesis by (subst prefix_sum2d_outer.simps) simp
  qed
qed

lemma prefix_sum2d_inv:
  assumes "inv2d (f2_n s) (f2_T s) g" "f2_n s < 2 ^ 15" "f2_cells s = cells2d (f2_n s)"
    and "0 \<le> x" "x \<le> f2_n s" "0 \<le> y" "y \<le> f2_n s"
  shows "prefix_sum2d s x y = Inr (\<Sum>i\<in>{0<..x}. \<Sum>j\<in>{0<..y}. g i j)"
  unfolding prefix_sum2d_def assms(3)
  using prefix_sum2d_outer_inv[OF assms(1,2,6,7,4,5), of 0] by simp

lemma update2d_inner_char:
  assumes "0 \<le> n" "n < 2 ^ 15" "0 \<le> x" "x \<le> n"
  shows "1 \<le> yy \<Longrightarrow>
   update2d_inner n (cells2d n) T x yy delta =
     Some (Inr (\<lambda>k. if \<exists>y'. yy \<le> y' \<and> y' \<le> n \<and> y' - lowbit y' < yy \<and> k = (n + 1) * y' + x
               then T k + delta else T k))"
proof (induction "nat (n + 1 - yy)" arbitrary: yy T rule: less_induct)
  case less
  show ?case
  proof (cases "yy \<le> n")
    case False
    then have "(\<lambda>k. if \<exists>y'. yy \<le> y' \<and> y' \<le> n \<and> y' - lowbit y' < yy \<and> k = (n + 1) * y' + x
               then T k + delta else T k) = T"
      by (intro ext) auto
    then show ?thesis using False by (subst update2d_inner.simps) (simp only: if_False)
  next
    case True
    have lb: "0 < lowbit yy" using less.prems lowbit_gt0 by auto
    let ?k0 = "(n + 1) * yy + x"
    let ?T = "T(?k0 := T ?k0 + delta)"
    let ?j = "yy + lowbit yy"
    have n1: "n + 1 \<noteq> 0" using assms by simp
    have y0: "0 \<le> yy" using less.prems by simp
    note c = cell2d_small[OF assms y0 True]
    have "update2d_inner n (cells2d n) T x yy delta = update2d_inner n (cells2d n) ?T x ?j delta"
      using True c(2,3) by (subst update2d_inner.simps) (simp add: c(1))
    also have "\<dots> = Some (Inr (\<lambda>k. if \<exists>y'. ?j \<le> y' \<and> y' \<le> n \<and> y' - lowbit y' < ?j \<and> k = (n + 1) * y' + x
               then ?T k + delta else ?T k))"
      using less.prems lb True by (intro less.hyps) simp_all
    also have "(\<lambda>k. if \<exists>y'. ?j \<le> y' \<and> y' \<le> n \<and> y' - lowbit y' < ?j \<and> k = (n + 1) * y' + x
               then ?T k + delta else ?T k)
        = (\<lambda>k. if \<exists>y'. yy \<le> y' \<and> y' \<le> n \<and> y' - lowbit y' < yy \<and> k = (n + 1) * y' + x
               then T k + delta else T k)"
    proof
      fix k
      have step: "(y' - lowbit y' < yy) = (y' = yy \<or> (?j \<le> y' \<and> y' - lowbit y' < ?j))"
        if "yy \<le> y'" for y'
        using chain_step[OF less.prems that] .
      show "(if \<exists>y'. ?j \<le> y' \<and> y' \<le> n \<and> y' - lowbit y' < ?j \<and> k = (n + 1) * y' + x
               then ?T k + delta else ?T k)
        = (if \<exists>y'. yy \<le> y' \<and> y' \<le> n \<and> y' - lowbit y' < yy \<and> k = (n + 1) * y' + x
               then T k + delta else T k)"
      proof (cases "k = ?k0")
        case k: True
        have A: "\<not> (\<exists>y'. ?j \<le> y' \<and> y' \<le> n \<and> y' - lowbit y' < ?j \<and> k = (n + 1) * y' + x)"
          using k n1 lb by auto
        have B: "\<exists>y'. yy \<le> y' \<and> y' \<le> n \<and> y' - lowbit y' < yy \<and> k = (n + 1) * y' + x"
          using k True lb by (intro exI[of _ yy]) simp
        show ?thesis unfolding if_not_P[OF A] if_P[OF B] using k by simp
      next
        case k: False
        have "(\<exists>y'. ?j \<le> y' \<and> y' \<le> n \<and> y' - lowbit y' < ?j \<and> k = (n + 1) * y' + x)
            = (\<exists>y'. yy \<le> y' \<and> y' \<le> n \<and> y' - lowbit y' < yy \<and> k = (n + 1) * y' + x)"
        proof
          assume "\<exists>y'. ?j \<le> y' \<and> y' \<le> n \<and> y' - lowbit y' < ?j \<and> k = (n + 1) * y' + x"
          then obtain y' where y': "?j \<le> y'" "y' \<le> n" "y' - lowbit y' < ?j" "k = (n + 1) * y' + x"
            by blast
          have "yy \<le> y'" using y'(1) lb by simp
          from step[OF this] y' have "y' - lowbit y' < yy" by simp
          then show "\<exists>y'. yy \<le> y' \<and> y' \<le> n \<and> y' - lowbit y' < yy \<and> k = (n + 1) * y' + x"
            using y' \<open>yy \<le> y'\<close> by blast
        next
          assume "\<exists>y'. yy \<le> y' \<and> y' \<le> n \<and> y' - lowbit y' < yy \<and> k = (n + 1) * y' + x"
          then obtain y' where y': "yy \<le> y'" "y' \<le> n" "y' - lowbit y' < yy" "k = (n + 1) * y' + x"
            by blast
          have "y' \<noteq> yy" using y'(4) k by auto
          with step[OF y'(1)] y'(3) have "?j \<le> y' \<and> y' - lowbit y' < ?j" by simp
          then show "\<exists>y'. ?j \<le> y' \<and> y' \<le> n \<and> y' - lowbit y' < ?j \<and> k = (n + 1) * y' + x"
            using y' by blast
        qed
        then show ?thesis using k by (simp only: fun_upd_apply if_False)
      qed
    qed
    finally show ?thesis .
  qed
qed

lemma update2d_outer_char:
  assumes "0 \<le> n" "n < 2 ^ 15" "1 \<le> y"
  shows "1 \<le> x \<Longrightarrow>
   update2d_outer n (cells2d n) T x y delta =
     Some (Inr (\<lambda>k. if \<exists>x' y'. x \<le> x' \<and> x' \<le> n \<and> x' - lowbit x' < x \<and>
                          y \<le> y' \<and> y' \<le> n \<and> y' - lowbit y' < y \<and> k = (n + 1) * y' + x'
               then T k + delta else T k))"
proof (induction "nat (n + 1 - x)" arbitrary: x T rule: less_induct)
  case less
  let ?C = "\<lambda>x k. \<exists>x' y'. x \<le> x' \<and> x' \<le> n \<and> x' - lowbit x' < x \<and>
                          y \<le> y' \<and> y' \<le> n \<and> y' - lowbit y' < y \<and> k = (n + 1) * y' + x'"
  show ?case
  proof (cases "x \<le> n")
    case False
    then have "(\<lambda>k. if ?C x k then T k + delta else T k) = T"
      by (intro ext) auto
    then show ?thesis using False by (subst update2d_outer.simps) (simp only: if_False)
  next
    case True
    have lb: "0 < lowbit x" using less.prems lowbit_gt0 by auto
    have x0: "0 \<le> x" using less.prems by simp
    let ?P = "\<lambda>k. \<exists>y'. y \<le> y' \<and> y' \<le> n \<and> y' - lowbit y' < y \<and> k = (n + 1) * y' + x"
    let ?T = "\<lambda>k. if ?P k then T k + delta else T k"
    let ?j = "x + lowbit x"
    have "update2d_outer n (cells2d n) T x y delta = update2d_outer n (cells2d n) ?T ?j y delta"
      using True update2d_inner_char[OF assms(1,2) x0 True assms(3), of T delta]
      by (subst update2d_outer.simps) simp
    also have "\<dots> = Some (Inr (\<lambda>k. if ?C ?j k then ?T k + delta else ?T k))"
      using less.prems lb True by (intro less.hyps) simp_all
    also have "(\<lambda>k. if ?C ?j k then ?T k + delta else ?T k)
             = (\<lambda>k. if ?C x k then T k + delta else T k)"
    proof
      fix k
      have step: "(x' - lowbit x' < x) = (x' = x \<or> (?j \<le> x' \<and> x' - lowbit x' < ?j))"
        if "x \<le> x'" for x'
        using chain_step[OF less.prems that] .
      show "(if ?C ?j k then ?T k + delta else ?T k) = (if ?C x k then T k + delta else T k)"
      proof (cases "?P k")
        case P: True
        then obtain y' where y': "y \<le> y'" "y' \<le> n" "y' - lowbit y' < y" "k = (n + 1) * y' + x"
          by blast
        have A: "\<not> ?C ?j k"
        proof
          assume "?C ?j k"
          then obtain x'' y'' where c: "?j \<le> x''" "x'' \<le> n" "k = (n + 1) * y'' + x''" by blast
          have "x = x''"
            using flat_inj[of x n x'' y' y''] less.prems True c y'(4) lb by simp
          then show False using c(1) lb by simp
        qed
        have B: "?C x k" using y' True lb by (intro exI[of _ x] exI[of _ y']) simp
        show ?thesis unfolding if_not_P[OF A] if_P[OF B] if_P[OF P] ..
      next
        case P: False
        have "?C ?j k = ?C x k"
        proof
          assume "?C ?j k"
          then obtain x' y' where c: "?j \<le> x'" "x' \<le> n" "x' - lowbit x' < ?j"
            "y \<le> y'" "y' \<le> n" "y' - lowbit y' < y" "k = (n + 1) * y' + x'" by blast
          have xx: "x \<le> x'" using c(1) lb by simp
          from step[OF this] c have "x' - lowbit x' < x" by simp
          then show "?C x k" using c xx by blast
        next
          assume "?C x k"
          then obtain x' y' where c: "x \<le> x'" "x' \<le> n" "x' - lowbit x' < x"
            "y \<le> y'" "y' \<le> n" "y' - lowbit y' < y" "k = (n + 1) * y' + x'" by blast
          have "x' \<noteq> x" using P c by blast
          with step[OF c(1)] c(3) have "?j \<le> x' \<and> x' - lowbit x' < ?j" by simp
          then show "?C ?j k" using c by blast
        qed
        then show ?thesis unfolding if_not_P[OF P] by simp
      qed
    qed
    finally show ?thesis .
  qed
qed

lemma sum2_fun_upd_add:
  fixes g :: "int \<Rightarrow> int \<Rightarrow> int"
  assumes "finite A" "finite B"
  shows "(\<Sum>i\<in>A. \<Sum>j\<in>B. (g(x := (g x)(y := g x y + d))) i j)
       = (\<Sum>i\<in>A. \<Sum>j\<in>B. g i j) + (if x \<in> A \<and> y \<in> B then d else 0)"
proof -
  let ?H = "\<lambda>i. \<Sum>j\<in>B. g i j"
  let ?e = "if y \<in> B then d else 0"
  have "(\<lambda>i. \<Sum>j\<in>B. (g(x := (g x)(y := g x y + d))) i j) = ?H(x := ?H x + ?e)"
  proof
    fix i
    show "(\<Sum>j\<in>B. (g(x := (g x)(y := g x y + d))) i j) = (?H(x := ?H x + ?e)) i"
    proof (cases "i = x")
      case True
      then show ?thesis using sum_fun_upd_add[OF assms(2), of "g x" y d] by simp
    next
      case False
      then show ?thesis by simp
    qed
  qed
  then have "(\<Sum>i\<in>A. \<Sum>j\<in>B. (g(x := (g x)(y := g x y + d))) i j) = sum (?H(x := ?H x + ?e)) A"
    by (rule arg_cong[where f = "\<lambda>h. sum h A"])
  also have "\<dots> = sum ?H A + (if x \<in> A then ?e else 0)"
    by (rule sum_fun_upd_add[OF assms(1)])
  finally show ?thesis by (simp del: fun_upd_apply)
qed

lemma update2d_inv:
  assumes "inv2d (f2_n s) (f2_T s) g" "f2_n s < 2 ^ 15" "f2_cells s = cells2d (f2_n s)"
    and "1 \<le> x" "x \<le> f2_n s" "1 \<le> y" "y \<le> f2_n s"
  shows "\<exists>s'. update2d s x y delta = Some (Inr s') \<and> f2_n s' = f2_n s \<and>
           f2_cells s' = f2_cells s \<and>
           inv2d (f2_n s') (f2_T s') (g(x := (g x)(y := g x y + delta)))"
proof -
  let ?n = "f2_n s"
  let ?T = "f2_T s"
  let ?C = "\<lambda>k. \<exists>x' y'. x \<le> x' \<and> x' \<le> ?n \<and> x' - lowbit x' < x \<and>
                          y \<le> y' \<and> y' \<le> ?n \<and> y' - lowbit y' < y \<and> k = (?n + 1) * y' + x'"
  let ?T' = "\<lambda>k. if ?C k then ?T k + delta else ?T k"
  have n0: "0 \<le> ?n" using assms(4,5) by simp
  have u: "update2d s x y delta = Some (Inr (s\<lparr>f2_T := ?T'\<rparr>))"
    unfolding update2d_def assms(3) update2d_outer_char[OF n0 assms(2) assms(6) assms(4)] by simp
  have "inv2d ?n ?T' (g(x := (g x)(y := g x y + delta)))"
    unfolding inv2d_def
  proof (intro allI impI)
    fix X Y assume XY: "1 \<le> X \<and> X \<le> ?n \<and> 1 \<le> Y \<and> Y \<le> ?n"
    have C: "?C ((?n + 1) * Y + X) = (x \<in> {X - lowbit X<..X} \<and> y \<in> {Y - lowbit Y<..Y})"
    proof
      assume "?C ((?n + 1) * Y + X)"
      then obtain x' y' where c: "x \<le> x'" "x' \<le> ?n" "x' - lowbit x' < x"
            "y \<le> y'" "y' \<le> ?n" "y' - lowbit y' < y" "(?n + 1) * Y + X = (?n + 1) * y' + x'" by blast
      have "X = x' \<and> Y = y'" using flat_inj[OF _ _ _ _ c(7)] XY c(1,2) assms(4) by simp
      then show "x \<in> {X - lowbit X<..X} \<and> y \<in> {Y - lowbit Y<..Y}" using c by simp
    next
      assume "x \<in> {X - lowbit X<..X} \<and> y \<in> {Y - lowbit Y<..Y}"
      then show "?C ((?n + 1) * Y + X)" using XY by (intro exI[of _ X] exI[of _ Y]) simp
    qed
    have old: "?T ((?n + 1) * Y + X) = (\<Sum>i\<in>{X - lowbit X<..X}. \<Sum>j\<in>{Y - lowbit Y<..Y}. g i j)"
      using assms(1) XY by (simp add: inv2d_def)
    show "?T' ((?n + 1) * Y + X)
        = (\<Sum>i\<in>{X - lowbit X<..X}. \<Sum>j\<in>{Y - lowbit Y<..Y}. (g(x := (g x)(y := g x y + delta))) i j)"
      unfolding sum2_fun_upd_add[OF finite_greaterThanAtMost_int finite_greaterThanAtMost_int] C old
      by simp
  qed
  then show ?thesis using u by simp
qed

lemma allocate2d_inv: "inv2d (f2_n (allocate2d m)) (f2_T (allocate2d m)) (\<lambda>_ _. 0)"
  by (simp add: allocate2d_def inv2d_def)

lemma allocate2d_small:
  assumes "m \<le> 15"
  shows "f2_n (allocate2d m) < 2 ^ 15" and "f2_cells (allocate2d m) = cells2d (f2_n (allocate2d m))"
proof -
  have "nat m \<le> 15" using assms by simp
  then have "(2::int) ^ nat m \<le> 2 ^ 15" by (intro power_increasing) simp_all
  then show "f2_n (allocate2d m) < 2 ^ 15" by (simp add: allocate2d_def)
  show "f2_cells (allocate2d m) = cells2d (f2_n (allocate2d m))" by (simp add: allocate2d_def)
qed

lemma updates2d_inv:
  assumes "inv2d (f2_n s) (f2_T s) g" "f2_n s < 2 ^ 15" "f2_cells s = cells2d (f2_n s)"
    and "\<forall>(x, y, delta) \<in> set us. 1 \<le> x \<and> x \<le> f2_n s \<and> 1 \<le> y \<and> y \<le> f2_n s"
  shows "\<exists>s'. updates2d s us = Some (Inr s') \<and> f2_n s' = f2_n s \<and>
           f2_cells s' = f2_cells s \<and> inv2d (f2_n s') (f2_T s') (brute_grid g us)"
  using assms
proof (induction us arbitrary: s g)
  case Nil
  then show ?case by simp
next
  case (Cons u us)
  obtain x y delta where u: "u = (x, y, delta)" by (cases u)
  from Cons.prems(4) u have xy: "1 \<le> x" "x \<le> f2_n s" "1 \<le> y" "y \<le> f2_n s" by auto
  from update2d_inv[OF Cons.prems(1,2,3) xy, of delta] obtain s1 where
    s1: "update2d s x y delta = Some (Inr s1)" "f2_n s1 = f2_n s" "f2_cells s1 = f2_cells s"
        "inv2d (f2_n s1) (f2_T s1) (g(x := (g x)(y := g x y + delta)))" by blast
  have b: "f2_n s1 < 2 ^ 15" "f2_cells s1 = cells2d (f2_n s1)"
    using Cons.prems(2,3) s1(2,3) by simp_all
  have "\<forall>(x, y, delta) \<in> set us. 1 \<le> x \<and> x \<le> f2_n s1 \<and> 1 \<le> y \<and> y \<le> f2_n s1"
    using Cons.prems(4) s1(2) by auto
  from Cons.IH[OF s1(4) b this] obtain s' where
    "updates2d s1 us = Some (Inr s')" "f2_n s' = f2_n s1" "f2_cells s' = f2_cells s1"
    "inv2d (f2_n s') (f2_T s') (brute_grid (g(x := (g x)(y := g x y + delta))) us)" by blast
  then show ?case using s1 u by (simp del: fun_upd_apply)
qed

lemma range_sum2d_inv:
  assumes inv: "inv2d (f2_n s) (f2_T s) g"
    and small: "f2_n s < 2 ^ 15" "f2_cells s = cells2d (f2_n s)"
    and x: "1 \<le> x1" "x1 \<le> x2" "x2 \<le> f2_n s" and y: "1 \<le> y1" "y1 \<le> y2" "y2 \<le> f2_n s"
  shows "range_sum2d s x1 y1 x2 y2 = Inr (\<Sum>i\<in>{x1..x2}. \<Sum>j\<in>{y1..y2}. g i j)"
proof -
  let ?S = "\<lambda>x y. \<Sum>i\<in>{0<..x}. \<Sum>j\<in>{0<..y}. g i j"
  have ps: "prefix_sum2d s x y = Inr (?S x y)"
    if "0 \<le> x" "x \<le> f2_n s" "0 \<le> y" "y \<le> f2_n s" for x y
    using prefix_sum2d_inv[OF inv small that] .
  have S0x: "?S 0 y = 0" for y by simp
  have S0y: "?S x 0 = 0" for x by simp
  have p22: "prefix_sum2d s x2 y2 = Inr (?S x2 y2)" using x y by (intro ps) simp_all
  have p12: "prefix_sum2d s (x1 - 1) y2 = Inr (?S (x1 - 1) y2)" using x y by (intro ps) simp_all
  have p21: "prefix_sum2d s x2 (y1 - 1) = Inr (?S x2 (y1 - 1))" using x y by (intro ps) simp_all
  have p11: "prefix_sum2d s (x1 - 1) (y1 - 1) = Inr (?S (x1 - 1) (y1 - 1))"
    using x y by (intro ps) simp_all
  have x1: "x1 = 1" if "\<not> x1 > 1" using that x by simp
  have y1: "y1 = 1" if "\<not> y1 > 1" using that y by simp
  have rs: "range_sum2d s x1 y1 x2 y2
      = Inr (?S x2 y2 - ?S (x1 - 1) y2 - ?S x2 (y1 - 1) + ?S (x1 - 1) (y1 - 1))"
  proof (cases "x1 > 1")
    case a: True
    show ?thesis
    proof (cases "y1 > 1")
      case True
      then show ?thesis using a by (simp add: range_sum2d_def then_sum_def p22 p12 p21 p11)
    next
      case False
      then show ?thesis using a y1 by (simp add: range_sum2d_def then_sum_def p22 p12)
    qed
  next
    case a: False
    show ?thesis
    proof (cases "y1 > 1")
      case True
      then show ?thesis using a x1 by (simp add: range_sum2d_def then_sum_def p22 p21)
    next
      case False
      then show ?thesis using a x1 y1 by (simp add: range_sum2d_def then_sum_def p22)
    qed
  qed
  have ex: "{x1..x2} = {x1 - 1<..x2}" and ey: "{y1..y2} = {y1 - 1<..y2}" by auto
  have sxy: "?S x Y = ?S (x1 - 1) Y + (\<Sum>i\<in>{x1 - 1<..x}. \<Sum>j\<in>{0<..Y}. g i j)"
    if "x1 - 1 \<le> x" for x Y
    using sum_ivl_split[of 0 "x1 - 1" x "\<lambda>i. \<Sum>j\<in>{0<..Y}. g i j"] x(1) that by simp
  have row: "(\<Sum>j\<in>{0<..y2}. g i j) = (\<Sum>j\<in>{0<..y1 - 1}. g i j) + (\<Sum>j\<in>{y1 - 1<..y2}. g i j)" for i
    using sum_ivl_split[of 0 "y1 - 1" y2 "g i"] y by simp
  have "?S x2 y2 - ?S (x1 - 1) y2 - ?S x2 (y1 - 1) + ?S (x1 - 1) (y1 - 1)
      = (\<Sum>i\<in>{x1 - 1<..x2}. \<Sum>j\<in>{0<..y2}. g i j) - (\<Sum>i\<in>{x1 - 1<..x2}. \<Sum>j\<in>{0<..y1 - 1}. g i j)"
    using sxy[of x2 y2] sxy[of x2 "y1 - 1"] x by simp
  also have "\<dots> = (\<Sum>i\<in>{x1 - 1<..x2}. (\<Sum>j\<in>{0<..y2}. g i j) - (\<Sum>j\<in>{0<..y1 - 1}. g i j))"
    by (simp add: sum_subtractf)
  also have "\<dots> = (\<Sum>i\<in>{x1 - 1<..x2}. \<Sum>j\<in>{y1 - 1<..y2}. g i j)"
    by (rule sum.cong) (simp_all add: row)
  finally show ?thesis unfolding rs ex ey by simp
qed

text \<open>
  Claim C8 says that on a freshly allocated \<open>n \<times> n\<close> grid, after any sequence of
  \<open>update(x, y, delta)\<close> with \<open>1 \<le> x, y \<le> n\<close>, every \<open>range_sum\<close> is the brute-force double
  sum, on the \<open>n \<times> n\<close> cells that the comment of \<open>allocate\<close> promises for \<open>n = 2^m - 1\<close>.
  At order 16 (\<open>n = 65535\<close>) the cell count \<open>(n + 1) * (n + 1) = 2^32\<close> does not fit the
  \<open>int\<close> it is computed in and comes out as 0 on the two's-complement machine, so
  \<open>allocate\<close> returns a grid without a single cell. The first write of
  \<open>update(1, 1, 5)\<close>, to \<open>T[65537]\<close>, is outside the allocation, where the simulated
  grid gets 5 at \<open>(1, 1)\<close>; and on the grid as allocated \<open>range_sum(1, 1, 1, 1)\<close> reads
  outside the allocation, where the simulated grid has 0.
\<close>

theorem grid_order16_out_of_bounds:
  "f2_n (allocate2d 16) = 65535 \<and> f2_cells (allocate2d 16) = 0 \<and>
   updates2d (allocate2d 16) [(1, 1, 5)] = Some (Inl OutOfBounds) \<and>
   brute_grid (\<lambda>_ _. 0) [(1, 1, 5)] 1 1 = 5 \<and>
   range_sum2d (allocate2d 16) 1 1 1 1 = Inl OutOfBounds \<and>
   brute_grid (\<lambda>_ _. 0) [] 1 1 = 0"
  by (simp add: allocate2d_def update2d_def cells2d_def cell2d_def wrap32_def
        update2d_outer.simps[of _ _ _ 1] update2d_inner.simps[of _ _ _ _ 1]
        range_sum2d_def then_sum_def prefix_sum2d_def
        prefix_sum2d_outer.simps[of _ _ _ 1] prefix_sum2d_inner.simps[of _ _ _ _ 1])

text \<open>
  For the orders whose cell count fits an \<open>int\<close> the grid is correct. On a freshly allocated
  \<open>n \<times> n\<close> grid of order \<open>m \<le> 15\<close>, after any sequence of \<open>update(x, y, delta)\<close> with
  \<open>1 \<le> x, y \<le> n\<close>, every update returns without leaving the allocation, and every
  \<open>range_sum(x1, y1, x2, y2)\<close> with \<open>1 \<le> x1 \<le> x2 \<le> n\<close> and \<open>1 \<le> y1 \<le> y2 \<le> n\<close> returns
  the double sum of the simulated grid over \<open>[x1, x2] \<times> [y1, y2]\<close>.
\<close>

theorem range_sum2d_correct:
  assumes "m \<le> 15"
    and "\<forall>(x, y, delta) \<in> set us.
             1 \<le> x \<and> x \<le> f2_n (allocate2d m) \<and> 1 \<le> y \<and> y \<le> f2_n (allocate2d m)"
    and "1 \<le> x1" "x1 \<le> x2" "x2 \<le> f2_n (allocate2d m)"
    and "1 \<le> y1" "y1 \<le> y2" "y2 \<le> f2_n (allocate2d m)"
  shows "\<exists>s. updates2d (allocate2d m) us = Some (Inr s) \<and>
           range_sum2d s x1 y1 x2 y2
             = Inr (\<Sum>i\<in>{x1..x2}. \<Sum>j\<in>{y1..y2}. brute_grid (\<lambda>_ _. 0) us i j)"
proof -
  note small = allocate2d_small[OF assms(1)]
  from updates2d_inv[OF allocate2d_inv small assms(2)] obtain s where
    s: "updates2d (allocate2d m) us = Some (Inr s)" "f2_n s = f2_n (allocate2d m)"
       "f2_cells s = f2_cells (allocate2d m)"
       "inv2d (f2_n s) (f2_T s) (brute_grid (\<lambda>_ _. 0) us)" by blast
  have b: "f2_n s < 2 ^ 15" "f2_cells s = cells2d (f2_n s)" using small s(2,3) by simp_all
  have "range_sum2d s x1 y1 x2 y2
             = Inr (\<Sum>i\<in>{x1..x2}. \<Sum>j\<in>{y1..y2}. brute_grid (\<lambda>_ _. 0) us i j)"
    using assms(3-) s(2) by (intro range_sum2d_inv[OF s(4) b]) simp_all
  then show ?thesis using s(1) by blast
qed

theorem range_sum2d_correct_witness:
  "\<exists>s. updates2d (allocate2d 2) [(1, 2, 5), (3, 3, 7), (2, 2, 1), (2, 1, 100)] = Some (Inr s) \<and>
       range_sum2d s 2 2 3 3 = Inr 8"
proof -
  have e: "{2..3::int} = {2, 3}" by auto
  show ?thesis
    using range_sum2d_correct[of 2 "[(1, 2, 5), (3, 3, 7), (2, 2, 1), (2, 1, 100)]" 2 3 2 3]
    by (auto simp: allocate2d_def e)
qed

section \<open>FenwickRMQ: chains, range minima and the invariant\<close>

lemma down_step:
  "1 \<le> b \<Longrightarrow> b \<le> x \<Longrightarrow>
   (x < b + lowbit b) = (x = b \<or> (b \<le> x - lowbit x \<and> x - lowbit x < b + lowbit b))"
proof (induction "nat x" arbitrary: x b rule: less_induct)
  case less
  have lx: "0 < lowbit x" using less.prems lowbit_gt0[of x] by simp
  show ?case
  proof (cases "even b")
    case False
    then obtain b' where b: "b = 2 * b' + 1" by (auto elim: oddE)
    have lb: "lowbit b = 1" by (simp add: b lowbit_odd)
    have "even (x - lowbit x)" by (rule lowbit_parity)
    then have "x - lowbit x \<noteq> b" using False by auto
    then show ?thesis using less.prems lb lx by auto
  next
    case True
    then obtain b' where b: "b = 2 * b'" by (auto elim: evenE)
    have eb: "even (b + lowbit b)" by (simp add: b lowbit_even)
    show ?thesis
    proof (cases "even x")
      case False
      then obtain x' where x: "x = 2 * x' + 1" by (auto elim: oddE)
      have lx1: "lowbit x = 1" by (simp add: x lowbit_odd)
      have "x \<noteq> b + lowbit b" using eb False by auto
      moreover have "x \<noteq> b" using True False by auto
      ultimately show ?thesis using less.prems lx1 by auto
    next
      case Tx: True
      then obtain x' where x: "x = 2 * x'" by (auto elim: evenE)
      have "1 \<le> b'" "b' \<le> x'" "nat x' < nat x" using less.prems x b by auto
      from less.hyps[OF this(3) this(1) this(2)] show ?thesis
        unfolding x b lowbit_even by linarith
    qed
  qed
qed

lemma up_parent_left: "1 \<le> r \<Longrightarrow> (r + lowbit r) - lowbit (r + lowbit r) \<le> r - lowbit r"
proof (induction "nat r" arbitrary: r rule: less_induct)
  case less
  show ?case
  proof (cases "even r")
    case False
    then obtain m where r: "r = 2 * m + 1" by (auto elim: oddE)
    have l1: "lowbit r = 1" by (simp add: r lowbit_odd)
    have m: "1 \<le> m + 1" using less.prems r by simp
    have "r + 1 = 2 * (m + 1)" by (simp add: r)
    then have "lowbit (r + 1) = 2 * lowbit (m + 1)" by (simp only: lowbit_even)
    moreover have "0 < lowbit (m + 1)" using m lowbit_gt0 by blast
    ultimately show ?thesis using l1 by simp
  next
    case True
    then obtain m where r: "r = 2 * m" by (auto elim: evenE)
    have m: "1 \<le> m" "nat m < nat r" using less.prems r by auto
    have e: "r + lowbit r = 2 * (m + lowbit m)" by (simp add: r lowbit_even)
    from less.hyps[OF m(2) m(1)] show ?thesis
      unfolding e lowbit_even unfolding r lowbit_even by simp
  qed
qed

lemma down_parent_right:
  "1 \<le> l \<Longrightarrow> 1 \<le> l - lowbit l \<Longrightarrow> l + lowbit l \<le> (l - lowbit l) + lowbit (l - lowbit l)"
proof (induction "nat l" arbitrary: l rule: less_induct)
  case less
  show ?case
  proof (cases "even l")
    case False
    then obtain m where l: "l = 2 * m + 1" by (auto elim: oddE)
    have l1: "lowbit l = 1" by (simp add: l lowbit_odd)
    have m: "1 \<le> m" using less.prems l l1 by simp
    have "l - 1 = 2 * m" by (simp add: l)
    then have "lowbit (l - 1) = 2 * lowbit m" by (simp only: lowbit_even)
    moreover have "0 < lowbit m" using m lowbit_gt0 by blast
    ultimately show ?thesis using l1 by simp
  next
    case True
    then obtain m where l: "l = 2 * m" by (auto elim: evenE)
    have e: "l - lowbit l = 2 * (m - lowbit m)" by (simp add: l lowbit_even)
    have m: "1 \<le> m" "nat m < nat l" "1 \<le> m - lowbit m" using less.prems l e by auto
    from less.hyps[OF m(2) m(1) m(3)] show ?thesis
      unfolding e lowbit_even unfolding l lowbit_even by simp
  qed
qed

lemma parent_block_right: "1 \<le> r \<Longrightarrow> 1 \<le> r - lowbit r \<Longrightarrow> r < (r - lowbit r) + lowbit (r - lowbit r)"
  using down_parent_right[of r] lowbit_gt0[of r] by simp

lemma range_min_empty: "range_min a {} = INT_MAX"
  by (simp add: range_min_def)

lemma range_min_le: "finite S \<Longrightarrow> range_min a S \<le> INT_MAX"
  by (simp add: range_min_def)

lemma range_min_union:
  "finite S \<Longrightarrow> finite S' \<Longrightarrow> range_min a (S \<union> S') = min (range_min a S) (range_min a S')"
proof -
  assume f: "finite S" "finite S'"
  have e: "insert INT_MAX (a ` (S \<union> S')) = insert INT_MAX (a ` S) \<union> insert INT_MAX (a ` S')"
    by auto
  have "Min (insert INT_MAX (a ` S) \<union> insert INT_MAX (a ` S'))
      = min (Min (insert INT_MAX (a ` S))) (Min (insert INT_MAX (a ` S')))"
    by (rule Min.union) (use f in simp_all)
  then show ?thesis unfolding range_min_def e .
qed

lemma range_min_single: "a i \<le> INT_MAX \<Longrightarrow> range_min a {i} = a i"
  by (simp add: range_min_def)

lemma range_min_cong: "(\<And>i. i \<in> S \<Longrightarrow> a i = b i) \<Longrightarrow> range_min a S = range_min b S"
proof -
  assume "\<And>i. i \<in> S \<Longrightarrow> a i = b i"
  then have "a ` S = b ` S" by (intro image_cong) auto
  then show ?thesis by (simp add: range_min_def)
qed

lemma range_min_mono: "finite S \<Longrightarrow> S' \<subseteq> S \<Longrightarrow> range_min a S \<le> range_min a S'"
proof -
  assume f: "finite S" and sub: "S' \<subseteq> S"
  have "S = S' \<union> S" using sub by auto
  then have "range_min a S = min (range_min a S') (range_min a S)"
    using range_min_union[of S' S a] f sub finite_subset by metis
  then show ?thesis by simp
qed

lemma range_min_Min:
  assumes "finite S" "S \<noteq> {}" "\<forall>i\<in>S. a i \<le> INT_MAX"
  shows "range_min a S = Min (a ` S)"
proof -
  obtain i where i: "i \<in> S" using assms(2) by blast
  have fin: "finite (a ` S)" and ne: "a ` S \<noteq> {}" using assms(1,2) by simp_all
  have "Min (a ` S) \<le> a i" using fin i by (intro Min_le) simp_all
  then have le: "Min (a ` S) \<le> INT_MAX" using assms(3) i by force
  have "Min (insert INT_MAX (a ` S)) = min INT_MAX (Min (a ` S))"
    using fin ne by (rule Min_insert)
  then show ?thesis unfolding range_min_def using le by simp
qed

section \<open>FenwickRMQ: the two climbs, and query\<close>

lemma range_min_ivl_glue:
  "l \<le> m \<Longrightarrow> m \<le> u \<Longrightarrow>
   min (range_min a {m<..u}) (range_min a {l<..m}) = range_min a {l<..u::int}"
proof -
  assume "l \<le> m" "m \<le> u"
  then have "{l<..u} = {m<..u} \<union> {l<..m}" by auto
  then show ?thesis by (simp add: range_min_union)
qed

lemma climb_lbit_char:
  assumes lb: "\<forall>k. 1 \<le> k \<and> k \<le> j0 \<longrightarrow> rmq_lbit s k = range_min a {k - lowbit k<..k}"
  shows "0 \<le> j \<Longrightarrow> j \<le> j0 \<Longrightarrow> res \<le> INT_MAX \<Longrightarrow>
    \<exists>j'. climb_lbit s fr res j (j - lowbit j) = Some (min res (range_min a {j'<..j}), j')
       \<and> 0 \<le> j' \<and> j' \<le> j \<and> (fr - 1 \<le> j \<longrightarrow> fr - 1 \<le> j')
       \<and> (\<forall>b. 0 \<le> b \<and> b \<le> j \<and> (b = 0 \<or> j < b + lowbit b) \<and> fr \<le> b + 1 \<longrightarrow> j' \<le> b)"
proof (induction "nat j" arbitrary: j res rule: less_induct)
  case less
  show ?case
  proof (cases "j \<ge> 1 \<and> (j - lowbit j) + 1 \<ge> fr")
    case False
    have "climb_lbit s fr res j (j - lowbit j) = Some (res, j)"
      using False by (subst climb_lbit.simps) auto
    moreover have "min res (range_min a {j<..j}) = res"
      using less.prems(3) by (simp add: range_min_empty)
    moreover have "j \<le> b"
      if b: "0 \<le> b \<and> b \<le> j \<and> (b = 0 \<or> j < b + lowbit b) \<and> fr \<le> b + 1" for b
    proof (rule ccontr)
      assume "\<not> j \<le> b"
      then have bj: "b < j" by simp
      then have j1: "1 \<le> j" using b by simp
      have "b \<le> j - lowbit j"
      proof (cases "b = 0")
        case True
        then show ?thesis using lowbit_le[OF j1] by simp
      next
        case False
        then have "1 \<le> b" "b \<le> j" "j < b + lowbit b" using b by auto
        from down_step[OF this(1,2)] this(3) bj show ?thesis by simp
      qed
      then show False using False j1 b by simp
    qed
    ultimately show ?thesis using less.prems(1) by auto
  next
    case True
    then have j1: "1 \<le> j" and fit: "fr \<le> (j - lowbit j) + 1" by simp_all
    have lbj: "0 < lowbit j" "lowbit j \<le> j" using j1 lowbit_gt0 lowbit_le by auto
    let ?j1 = "j - lowbit j"
    let ?res1 = "min res (rmq_lbit s j)"
    have blk: "rmq_lbit s j = range_min a {?j1<..j}" using lb j1 less.prems(2) by simp
    have r1: "?res1 \<le> INT_MAX" using less.prems(3) by simp
    have unf: "climb_lbit s fr res j ?j1 = climb_lbit s fr ?res1 ?j1 (?j1 - lowbit ?j1)"
      using True by (subst climb_lbit.simps) simp
    have "nat ?j1 < nat j" "0 \<le> ?j1" "?j1 \<le> j0" using lbj less.prems by simp_all
    from less.hyps[OF this r1] obtain j' where j':
      "climb_lbit s fr ?res1 ?j1 (?j1 - lowbit ?j1) = Some (min ?res1 (range_min a {j'<..?j1}), j')"
      "0 \<le> j'" "j' \<le> ?j1" "fr - 1 \<le> ?j1 \<longrightarrow> fr - 1 \<le> j'"
      "\<forall>b. 0 \<le> b \<and> b \<le> ?j1 \<and> (b = 0 \<or> ?j1 < b + lowbit b) \<and> fr \<le> b + 1 \<longrightarrow> j' \<le> b"
      by blast
    have glue: "min ?res1 (range_min a {j'<..?j1}) = min res (range_min a {j'<..j})"
      using range_min_ivl_glue[of j' ?j1 j a] j'(3) lbj blk by (simp add: min.assoc)
    have bprop: "j' \<le> b"
      if b: "0 \<le> b \<and> b \<le> j \<and> (b = 0 \<or> j < b + lowbit b) \<and> fr \<le> b + 1" for b
    proof (cases "b = j")
      case True
      then show ?thesis using j'(3) lbj by simp
    next
      case False
      then have bj: "b < j" using b by simp
      have "b \<le> ?j1 \<and> (b = 0 \<or> ?j1 < b + lowbit b)"
      proof (cases "b = 0")
        case True
        then show ?thesis using lbj by simp
      next
        case b0: False
        then have "1 \<le> b" "b \<le> j" "j < b + lowbit b" using b by auto
        from down_step[OF this(1,2)] this(3) bj b0 show ?thesis by simp
      qed
      then show ?thesis using j'(5) b by blast
    qed
    show ?thesis
    proof (intro exI[of _ j'] conjI allI impI)
      show "climb_lbit s fr res j ?j1 = Some (min res (range_min a {j'<..j}), j')"
        unfolding unf j'(1) glue ..
      show "0 \<le> j'" by (rule j'(2))
      show "j' \<le> j" using j'(3) lbj by simp
      show "fr - 1 \<le> j'" using j'(4) fit by simp
      show "j' \<le> b" if "0 \<le> b \<and> b \<le> j \<and> (b = 0 \<or> j < b + lowbit b) \<and> fr \<le> b + 1" for b
        using bprop[OF that] .
    qed
  qed
qed

lemma range_min_ivl_glue_right:
  fixes n :: int
  assumes "i < i1" "i1 \<le> i'"
  shows "min (range_min a {i..min n (i1 - 1)}) (range_min a {i1..min n (i' - 1)})
       = range_min a {i..min n (i' - 1)}"
proof -
  have "{i..min n (i' - 1)} = {i..min n (i1 - 1)} \<union> {i1..min n (i' - 1)}"
    using assms by auto
  then show ?thesis by (simp add: range_min_union)
qed

lemma climb_rbit_char:
  assumes rb: "\<forall>k. i0 \<le> k \<and> k \<le> rmq_n s \<longrightarrow>
                 rmq_rbit s k = range_min a {k..min (rmq_n s) (k + lowbit k - 1)}"
  shows "1 \<le> i \<Longrightarrow> i0 \<le> i \<Longrightarrow> res \<le> INT_MAX \<Longrightarrow>
    \<exists>i'. climb_rbit s to res i (i + lowbit i)
            = Some (min res (range_min a {i..min (rmq_n s) (i' - 1)}), i')
       \<and> i \<le> i' \<and> (i \<le> to + 1 \<longrightarrow> i' \<le> to + 1)
       \<and> \<not> (i' \<le> rmq_n s \<and> i' + lowbit i' - 1 \<le> to)
       \<and> (\<forall>t. i \<le> t \<and> t - lowbit t < i \<and> t \<le> to + 1 \<longrightarrow> t \<le> i' \<or> rmq_n s < i')"
proof (induction "nat (rmq_n s + 1 - i)" arbitrary: i res rule: less_induct)
  case less
  have lbi: "0 < lowbit i" using less.prems(1) lowbit_gt0 by simp
  show ?case
  proof (cases "i \<le> rmq_n s \<and> (i + lowbit i) - 1 \<le> to")
    case False
    have "climb_rbit s to res i (i + lowbit i) = Some (res, i)"
      using False by (subst climb_rbit.simps) auto
    moreover have "min res (range_min a {i..min (rmq_n s) (i - 1)}) = res"
      using less.prems(3) by (simp add: range_min_empty)
    moreover have "t \<le> i \<or> rmq_n s < i" if t: "i \<le> t \<and> t - lowbit t < i \<and> t \<le> to + 1" for t
    proof (rule ccontr)
      assume c: "\<not> (t \<le> i \<or> rmq_n s < i)"
      then have "t \<noteq> i" "i \<le> rmq_n s" by auto
      with chain_step[OF less.prems(1), of t] t have "i + lowbit i \<le> t" by simp
      then show False using False t \<open>i \<le> rmq_n s\<close> by simp
    qed
    ultimately show ?thesis using False by auto
  next
    case True
    then have fit: "i \<le> rmq_n s" "i + lowbit i - 1 \<le> to" by simp_all
    let ?i1 = "i + lowbit i"
    let ?res1 = "min res (rmq_rbit s i)"
    have blk: "rmq_rbit s i = range_min a {i..min (rmq_n s) (?i1 - 1)}"
      using rb less.prems(2) fit(1) by simp
    have r1: "?res1 \<le> INT_MAX" using less.prems(3) by simp
    have unf: "climb_rbit s to res i ?i1 = climb_rbit s to ?res1 ?i1 (?i1 + lowbit ?i1)"
      using True by (subst climb_rbit.simps) simp
    have "nat (rmq_n s + 1 - ?i1) < nat (rmq_n s + 1 - i)" "1 \<le> ?i1" "i0 \<le> ?i1"
      using lbi less.prems fit by simp_all
    from less.hyps[OF this r1] obtain i' where i':
      "climb_rbit s to ?res1 ?i1 (?i1 + lowbit ?i1)
         = Some (min ?res1 (range_min a {?i1..min (rmq_n s) (i' - 1)}), i')"
      "?i1 \<le> i'" "?i1 \<le> to + 1 \<longrightarrow> i' \<le> to + 1"
      "\<not> (i' \<le> rmq_n s \<and> i' + lowbit i' - 1 \<le> to)"
      "\<forall>t. ?i1 \<le> t \<and> t - lowbit t < ?i1 \<and> t \<le> to + 1 \<longrightarrow> t \<le> i' \<or> rmq_n s < i'"
      by blast
    have glue: "min ?res1 (range_min a {?i1..min (rmq_n s) (i' - 1)})
              = min res (range_min a {i..min (rmq_n s) (i' - 1)})"
      using range_min_ivl_glue_right[of i ?i1 i' a "rmq_n s"] i'(2) lbi blk
      by (simp add: min.assoc)
    have tprop: "t \<le> i' \<or> rmq_n s < i'" if t: "i \<le> t \<and> t - lowbit t < i \<and> t \<le> to + 1" for t
    proof (cases "t = i")
      case True
      then show ?thesis using i'(2) lbi by simp
    next
      case False
      with chain_step[OF less.prems(1), of t] t
      have "?i1 \<le> t \<and> t - lowbit t < ?i1" by simp
      then show ?thesis using i'(5) t by blast
    qed
    show ?thesis
    proof (intro exI[of _ i'] conjI allI impI)
      show "climb_rbit s to res i ?i1 = Some (min res (range_min a {i..min (rmq_n s) (i' - 1)}), i')"
        unfolding unf i'(1) glue ..
      show "i \<le> i'" using i'(2) lbi by simp
      show "i' \<le> to + 1" using i'(3) fit by simp
      show "\<not> (i' \<le> rmq_n s \<and> i' + lowbit i' - 1 \<le> to)" by (rule i'(4))
      show "t \<le> i' \<or> rmq_n s < i'" if "i \<le> t \<and> t - lowbit t < i \<and> t \<le> to + 1" for t
        using tprop[OF that] .
    qed
  qed
qed

lemma range_min_insert:
  "finite S \<Longrightarrow> a i \<le> INT_MAX \<Longrightarrow> range_min a (insert i S) = min (a i) (range_min a S)"
  using range_min_union[of "{i}" S a] by (simp add: range_min_single)

lemma rmq_new_inv: "rmq_inv (rmq_new n)"
proof -
  have "range_min (\<lambda>_. INT_MAX) S = INT_MAX" if "finite S" for S :: "int set"
  proof (cases "S = {}")
    case True then show ?thesis by (simp add: range_min_def)
  next
    case False
    then have "(\<lambda>_. INT_MAX) ` S = {INT_MAX}" by auto
    then show ?thesis by (simp add: range_min_def)
  qed
  then show ?thesis by (simp add: rmq_inv_def rmq_new_def)
qed

lemma rmq_query_correct:
  assumes inv: "rmq_inv s" and ft: "1 \<le> from" "from \<le> to" "to \<le> rmq_n s"
  shows "rmq_query s from to = Some (range_min (rmq_a s) {from..to}, s)"
proof -
  let ?a = "rmq_a s" and ?n = "rmq_n s"
  have amax: "?a i \<le> INT_MAX" for i using inv by (simp add: rmq_inv_def)
  have rb: "\<forall>k. 1 \<le> k \<and> k \<le> ?n \<longrightarrow> rmq_rbit s k = range_min ?a {k..min ?n (k + lowbit k - 1)}"
    using inv by (simp add: rmq_inv_def)
  have lb: "\<forall>k. 1 \<le> k \<and> k \<le> ?n \<longrightarrow> rmq_lbit s k = range_min ?a {k - lowbit k<..k}"
    using inv by (simp add: rmq_inv_def)
  from climb_rbit_char[OF rb ft(1) ft(1), of INT_MAX to] obtain i1 where i1:
    "climb_rbit s to INT_MAX from (from + lowbit from)
       = Some (min INT_MAX (range_min ?a {from..min ?n (i1 - 1)}), i1)"
    "from \<le> i1" "from \<le> to + 1 \<longrightarrow> i1 \<le> to + 1"
    "\<not> (i1 \<le> ?n \<and> i1 + lowbit i1 - 1 \<le> to)"
    by auto
  have i1le: "i1 \<le> to + 1" using i1(3) ft by simp
  have mn: "min ?n (i1 - 1) = i1 - 1" using i1le ft by simp
  let ?res1 = "range_min ?a {from..i1 - 1}"
  have c1: "climb_rbit s to INT_MAX from (from + lowbit from) = Some (?res1, i1)"
    using i1(1) mn by (simp add: range_min_le min_absorb2)
  let ?resA = "if i1 \<le> to then min ?res1 (?a i1) else ?res1"
  have resA: "?resA = range_min ?a {from..min i1 to}"
  proof (cases "i1 \<le> to")
    case True
    have "{from..i1} = {from..i1 - 1} \<union> {i1}" using i1(2) by auto
    then have "range_min ?a {from..i1} = min ?res1 (?a i1)"
      by (simp add: range_min_insert amax min.commute)
    then show ?thesis using True by simp
  next
    case False
    then have "i1 = to + 1" using i1le by simp
    then show ?thesis by simp
  qed
  have resAle: "?resA \<le> INT_MAX" unfolding resA by (simp add: range_min_le)
  have to0: "0 \<le> to" using ft by simp
  from climb_lbit_char[OF lb to0 ft(3) resAle, of "from"] obtain j' where j':
    "climb_lbit s from ?resA to (to - lowbit to) = Some (min ?resA (range_min ?a {j'<..to}), j')"
    "0 \<le> j'" "j' \<le> to" "from - 1 \<le> to \<longrightarrow> from - 1 \<le> j'"
    "\<forall>b. 0 \<le> b \<and> b \<le> to \<and> (b = 0 \<or> to < b + lowbit b) \<and> from \<le> b + 1 \<longrightarrow> j' \<le> b"
    by blast
  have jlo: "from - 1 \<le> j'" using j'(4) ft by simp
  have jle: "i1 \<le> to \<Longrightarrow> j' \<le> i1"
  proof -
    assume a: "i1 \<le> to"
    then have "to < i1 + lowbit i1" using i1(4) ft by simp
    then show "j' \<le> i1" using j'(5) a i1(2) ft by simp
  qed
  let ?res2 = "min ?resA (range_min ?a {j'<..to})"
  let ?final = "if j' \<ge> from then min ?res2 (?a j') else ?res2"
  have q: "rmq_query s from to = Some (?final, s)"
    using ft by (simp add: rmq_query_def c1 j'(1))
  have "?final = range_min ?a {from..to}"
  proof -
    have AB: "?res2 = range_min ?a ({from..min i1 to} \<union> {j'<..to})"
      unfolding resA by (simp add: range_min_union)
    show ?thesis
    proof (cases "j' \<ge> from")
      case True
      have "{from..to} = insert j' ({from..min i1 to} \<union> {j'<..to})"
      proof (cases "i1 \<le> to")
        case t: True
        then show ?thesis using jle jlo i1(2) j'(3) True by auto
      next
        case False
        then show ?thesis using i1le jlo j'(3) True by auto
      qed
      then have "range_min ?a {from..to} = min (?a j') ?res2"
        unfolding AB by (simp add: range_min_insert amax)
      then show ?thesis using True by (simp add: min.commute)
    next
      case False
      then have j: "j' = from - 1" using jlo by simp
      have "{from..to} = {from..min i1 to} \<union> {j'<..to}"
        using j i1(2) by auto
      then show ?thesis using False AB by simp
    qed
  qed
  then show ?thesis using q by simp
qed

section \<open>FenwickRMQ: the running variables of update\<close>

lemma sides_left_climb:
  "sd_ll sd = sd_lr sd - lowbit (sd_lr sd) \<Longrightarrow>
   sides_left s l sd =
     map_option (\<lambda>(res, i). sd\<lparr>sd_lmin := res, sd_lr := i, sd_ll := i - lowbit i\<rparr>)
       (climb_lbit s l (sd_lmin sd) (sd_lr sd) (sd_ll sd))"
proof (induction "nat (sd_lr sd)" arbitrary: sd rule: less_induct)
  case less
  show ?case
  proof (cases "sd_lr sd \<ge> 1 \<and> sd_ll sd + 1 \<ge> l")
    case False
    have "sides_left s l sd = Some sd" using False by (subst sides_left.simps) auto
    moreover have "climb_lbit s l (sd_lmin sd) (sd_lr sd) (sd_ll sd) = Some (sd_lmin sd, sd_lr sd)"
      using False by (subst climb_lbit.simps) auto
    ultimately show ?thesis using less.prems by simp
  next
    case True
    let ?sd1 = "sd\<lparr>sd_lmin := min (sd_lmin sd) (rmq_lbit s (sd_lr sd)),
                 sd_lr := sd_ll sd, sd_ll := sd_ll sd - lowbit (sd_ll sd)\<rparr>"
    have lb: "0 < lowbit (sd_lr sd)" using True lowbit_gt0 by simp
    have a: "sides_left s l sd = sides_left s l ?sd1"
      using True by (subst sides_left.simps) simp
    have b: "climb_lbit s l (sd_lmin sd) (sd_lr sd) (sd_ll sd)
           = climb_lbit s l (sd_lmin ?sd1) (sd_lr ?sd1) (sd_ll ?sd1)"
      using True by (subst climb_lbit.simps) simp
    have "nat (sd_lr ?sd1) < nat (sd_lr sd)" using True lb less.prems by simp
    moreover have "sd_ll ?sd1 = sd_lr ?sd1 - lowbit (sd_lr ?sd1)" by simp
    ultimately have "sides_left s l ?sd1 =
       map_option (\<lambda>(res, i). ?sd1\<lparr>sd_lmin := res, sd_lr := i, sd_ll := i - lowbit i\<rparr>)
       (climb_lbit s l (sd_lmin ?sd1) (sd_lr ?sd1) (sd_ll ?sd1))"
      by (rule less.hyps)
    then show ?thesis unfolding a b by simp
  qed
qed

lemma sides_right_climb:
  "sd_rr sd = sd_rl sd + lowbit (sd_rl sd) \<Longrightarrow> 1 \<le> sd_rl sd \<Longrightarrow>
   sides_right s r sd =
     map_option (\<lambda>(res, i). sd\<lparr>sd_rmin := res, sd_rl := i, sd_rr := i + lowbit i\<rparr>)
       (climb_rbit s r (sd_rmin sd) (sd_rl sd) (sd_rr sd))"
proof (induction "nat (rmq_n s + 1 - sd_rl sd)" arbitrary: sd rule: less_induct)
  case less
  show ?case
  proof (cases "sd_rl sd \<le> rmq_n s \<and> sd_rr sd - 1 \<le> r")
    case False
    have "sides_right s r sd = Some sd" using False by (subst sides_right.simps) auto
    moreover have "climb_rbit s r (sd_rmin sd) (sd_rl sd) (sd_rr sd) = Some (sd_rmin sd, sd_rl sd)"
      using False by (subst climb_rbit.simps) auto
    ultimately show ?thesis using less.prems by simp
  next
    case True
    let ?sd1 = "sd\<lparr>sd_rmin := min (sd_rmin sd) (rmq_rbit s (sd_rl sd)),
                 sd_rl := sd_rr sd, sd_rr := sd_rr sd + lowbit (sd_rr sd)\<rparr>"
    have lb: "0 < lowbit (sd_rl sd)" using less.prems lowbit_gt0 by simp
    have a: "sides_right s r sd = sides_right s r ?sd1"
      using True by (subst sides_right.simps) simp
    have b: "climb_rbit s r (sd_rmin sd) (sd_rl sd) (sd_rr sd)
           = climb_rbit s r (sd_rmin ?sd1) (sd_rl ?sd1) (sd_rr ?sd1)"
      using True by (subst climb_rbit.simps) simp
    have "nat (rmq_n s + 1 - sd_rl ?sd1) < nat (rmq_n s + 1 - sd_rl sd)"
      using True lb less.prems by simp
    moreover have "sd_rr ?sd1 = sd_rl ?sd1 + lowbit (sd_rl ?sd1)" by simp
    moreover have "1 \<le> sd_rl ?sd1" using less.prems lb by simp
    ultimately have "sides_right s r ?sd1 =
       map_option (\<lambda>(res, i). ?sd1\<lparr>sd_rmin := res, sd_rl := i, sd_rr := i + lowbit i\<rparr>)
       (climb_rbit s r (sd_rmin ?sd1) (sd_rl ?sd1) (sd_rr ?sd1))"
      by (rule less.hyps)
    then show ?thesis unfolding a b by simp
  qed
qed

lemma left_ok_mono: "left_ok a idx lo sd \<Longrightarrow> lo' \<le> lo \<Longrightarrow> left_ok a idx lo' sd"
  by (auto simp: left_ok_def)

lemma right_ok_mono: "right_ok a n idx hi sd \<Longrightarrow> hi \<le> hi' \<Longrightarrow> right_ok a n idx hi' sd"
  by (auto simp: right_ok_def)

lemma sides_init_ok:
  "lo \<le> idx \<Longrightarrow> idx \<le> hi \<Longrightarrow>
   left_ok a idx lo (sides_init idx) \<and> right_ok a n idx hi (sides_init idx)"
  by (simp add: left_ok_def right_ok_def sides_init_def range_min_empty)

lemma sides_left_post:
  assumes amax: "\<forall>i. a i \<le> INT_MAX"
    and lb: "\<forall>k. 1 \<le> k \<and> k \<le> idx - 1 \<longrightarrow> rmq_lbit s k = range_min a {k - lowbit k<..k}"
    and ok: "left_ok a idx lo sd"
    and lo: "1 \<le> lo"
    and b: "b = lo - 1 \<or> b = lo" "b = 0 \<or> idx - 1 < b + lowbit b"
  shows "\<exists>sd1. sides_left s lo sd = Some sd1 \<and>
           sd_rl sd1 = sd_rl sd \<and> sd_rr sd1 = sd_rr sd \<and> sd_rmin sd1 = sd_rmin sd \<and>
           sd_ll sd1 = sd_lr sd1 - lowbit (sd_lr sd1) \<and>
           lo - 1 \<le> sd_lr sd1 \<and> sd_lr sd1 \<le> lo \<and> sd_lr sd1 \<le> idx - 1 \<and>
           (if sd_lr sd1 \<ge> lo then min (sd_lmin sd1) (a (sd_lr sd1)) else sd_lmin sd1)
              = range_min a {lo..idx - 1}"
proof -
  let ?lr = "sd_lr sd"
  have ll: "sd_ll sd = ?lr - lowbit ?lr" and lr: "lo - 1 \<le> ?lr" "?lr \<le> idx - 1"
    and lm: "sd_lmin sd = range_min a {?lr<..idx - 1} \<or>
             (lo \<le> ?lr \<and> sd_lmin sd = range_min a {?lr..idx - 1})"
    using ok by (simp_all add: left_ok_def)
  have lr0: "0 \<le> ?lr" using lr lo by simp
  have lmle: "sd_lmin sd \<le> INT_MAX" using lm by (auto simp: range_min_le)
  from climb_lbit_char[OF lb lr0 lr(2) lmle, of lo] obtain j' where j':
    "climb_lbit s lo (sd_lmin sd) ?lr (?lr - lowbit ?lr)
       = Some (min (sd_lmin sd) (range_min a {j'<..?lr}), j')"
    "0 \<le> j'" "j' \<le> ?lr" "lo - 1 \<le> ?lr \<longrightarrow> lo - 1 \<le> j'"
    "\<forall>b. 0 \<le> b \<and> b \<le> ?lr \<and> (b = 0 \<or> ?lr < b + lowbit b) \<and> lo \<le> b + 1 \<longrightarrow> j' \<le> b"
    by blast
  have jlo: "lo - 1 \<le> j'" using j'(4) lr by simp
  have jhi: "j' \<le> lo"
  proof (cases "b \<le> ?lr")
    case True
    have "0 \<le> b \<and> b \<le> ?lr \<and> (b = 0 \<or> ?lr < b + lowbit b) \<and> lo \<le> b + 1"
      using True b lo lr by auto
    then have "j' \<le> b" using j'(5) by blast
    then show ?thesis using b by auto
  next
    case False
    then show ?thesis using b lr j'(3) by auto
  qed
  let ?lmin1 = "min (sd_lmin sd) (range_min a {j'<..?lr})"
  let ?sd1 = "sd\<lparr>sd_lmin := ?lmin1, sd_lr := j', sd_ll := j' - lowbit j'\<rparr>"
  have sl: "sides_left s lo sd = Some ?sd1"
    unfolding sides_left_climb[OF ll] ll j'(1) by simp
  have fin: "(if j' \<ge> lo then min ?lmin1 (a j') else ?lmin1) = range_min a {lo..idx - 1}"
  proof -
    have core: "?lmin1 = range_min a {j'<..idx - 1} \<or>
                (lo \<le> j' \<and> ?lmin1 = range_min a {j'..idx - 1})"
      using lm
    proof
      assume c: "sd_lmin sd = range_min a {?lr<..idx - 1}"
      have "{j'<..idx - 1} = {?lr<..idx - 1} \<union> {j'<..?lr}" using j'(3) lr by auto
      then show ?thesis using c by (simp add: range_min_union)
    next
      assume c: "lo \<le> ?lr \<and> sd_lmin sd = range_min a {?lr..idx - 1}"
      show ?thesis
      proof (cases "j' = ?lr")
        case True
        then show ?thesis using c lmle by (simp add: range_min_empty)
      next
        case False
        then have "{j'<..idx - 1} = {?lr..idx - 1} \<union> {j'<..?lr}" using j'(3) lr by auto
        then show ?thesis using c by (simp add: range_min_union)
      qed
    qed
    show ?thesis
    proof (cases "j' \<ge> lo")
      case True
      then have j: "j' = lo" using jhi by simp
      have "min ?lmin1 (a j') = range_min a {lo..idx - 1}"
        using core
      proof
        assume c: "?lmin1 = range_min a {j'<..idx - 1}"
        have "{lo..idx - 1} = insert lo {lo<..idx - 1}" using j j'(3) lr by auto
        then show ?thesis using c j amax by (simp add: range_min_insert min.commute)
      next
        assume c: "lo \<le> j' \<and> ?lmin1 = range_min a {j'..idx - 1}"
        have "{lo..idx - 1} = insert lo {lo..idx - 1}" using j j'(3) lr by auto
        then have "range_min a {lo..idx - 1} = min (a lo) (range_min a {lo..idx - 1})"
          using range_min_insert[of "{lo..idx - 1}" a lo] amax by simp
        then show ?thesis using c j by (simp add: min.commute)
      qed
      then show ?thesis using True by simp
    next
      case False
      then have j: "j' = lo - 1" using jlo by simp
      have "{j'<..idx - 1} = {lo..idx - 1}" using j by auto
      then show ?thesis using core False by auto
    qed
  qed
  have fin': "(if sd_lr ?sd1 \<ge> lo then min (sd_lmin ?sd1) (a (sd_lr ?sd1)) else sd_lmin ?sd1)
               = range_min a {lo..idx - 1}"
    using fin by (auto split: if_splits)
  show ?thesis
  proof (intro exI[of _ ?sd1] conjI)
    show "sides_left s lo sd = Some ?sd1" by (rule sl)
    show "(if sd_lr ?sd1 \<ge> lo then min (sd_lmin ?sd1) (a (sd_lr ?sd1)) else sd_lmin ?sd1)
               = range_min a {lo..idx - 1}" by (rule fin')
  qed (use jlo jhi j'(3) lr in simp_all)
qed

lemma sides_right_post:
  assumes amax: "\<forall>i. a i \<le> INT_MAX"
    and rb: "\<forall>k. idx + 1 \<le> k \<and> k \<le> rmq_n s \<longrightarrow>
               rmq_rbit s k = range_min a {k..min (rmq_n s) (k + lowbit k - 1)}"
    and ok: "right_ok a (rmq_n s) idx hi sd"
    and idx: "0 \<le> idx"
    and t: "t = hi \<or> t = hi + 1" "t - lowbit t < idx + 1"
  shows "\<exists>sd2. sides_right s hi sd = Some sd2 \<and>
           sd_lr sd2 = sd_lr sd \<and> sd_ll sd2 = sd_ll sd \<and> sd_lmin sd2 = sd_lmin sd \<and>
           sd_rr sd2 = sd_rl sd2 + lowbit (sd_rl sd2) \<and>
           idx + 1 \<le> sd_rl sd2 \<and> sd_rl sd2 \<le> hi + 1 \<and>
           (sd_rl sd2 \<le> min (rmq_n s) hi \<longrightarrow> sd_rl sd2 = hi) \<and>
           (if sd_rl sd2 \<le> min (rmq_n s) hi then min (sd_rmin sd2) (a (sd_rl sd2)) else sd_rmin sd2)
              = range_min a {idx + 1..min (rmq_n s) hi}"
proof -
  let ?rl = "sd_rl sd" and ?n = "rmq_n s"
  have rr: "sd_rr sd = ?rl + lowbit ?rl" and rl: "idx + 1 \<le> ?rl" "?rl \<le> hi + 1"
    and rm: "sd_rmin sd = range_min a {idx + 1..min ?n (?rl - 1)} \<or>
             (?rl \<le> min ?n hi \<and> sd_rmin sd = range_min a {idx + 1..?rl})"
    using ok by (simp_all add: right_ok_def)
  have rl1: "1 \<le> ?rl" using rl idx by simp
  have rmle: "sd_rmin sd \<le> INT_MAX" using rm by (auto simp: range_min_le)
  from climb_rbit_char[OF rb rl1 rl(1) rmle, of hi] obtain i' where i':
    "climb_rbit s hi (sd_rmin sd) ?rl (?rl + lowbit ?rl)
       = Some (min (sd_rmin sd) (range_min a {?rl..min ?n (i' - 1)}), i')"
    "?rl \<le> i'" "?rl \<le> hi + 1 \<longrightarrow> i' \<le> hi + 1"
    "\<not> (i' \<le> ?n \<and> i' + lowbit i' - 1 \<le> hi)"
    "\<forall>t. ?rl \<le> t \<and> t - lowbit t < ?rl \<and> t \<le> hi + 1 \<longrightarrow> t \<le> i' \<or> ?n < i'"
    by blast
  have ihi: "i' \<le> hi + 1" using i'(3) rl by simp
  have ilo: "hi \<le> i' \<or> ?n < i'"
  proof (cases "?rl \<le> t")
    case True
    have "?rl \<le> t \<and> t - lowbit t < ?rl \<and> t \<le> hi + 1" using True t rl by auto
    then have "t \<le> i' \<or> ?n < i'" using i'(5) by blast
    then show ?thesis using t by auto
  next
    case False
    then show ?thesis using t rl i'(2) by auto
  qed
  let ?rmin1 = "min (sd_rmin sd) (range_min a {?rl..min ?n (i' - 1)})"
  let ?sd2 = "sd\<lparr>sd_rmin := ?rmin1, sd_rl := i', sd_rr := i' + lowbit i'\<rparr>"
  have sr: "sides_right s hi sd = Some ?sd2"
    unfolding sides_right_climb[OF rr rl1] rr i'(1) by simp
  have only: "i' = hi" if "i' \<le> min ?n hi" using that ilo by auto
  have core: "?rmin1 = range_min a {idx + 1..min ?n (i' - 1)} \<or>
              (i' \<le> min ?n hi \<and> ?rmin1 = range_min a {idx + 1..i'})"
    using rm
  proof
    assume c: "sd_rmin sd = range_min a {idx + 1..min ?n (?rl - 1)}"
    have "{idx + 1..min ?n (i' - 1)} = {idx + 1..min ?n (?rl - 1)} \<union> {?rl..min ?n (i' - 1)}"
      using i'(2) rl by auto
    then show ?thesis using c by (simp add: range_min_union)
  next
    assume c: "?rl \<le> min ?n hi \<and> sd_rmin sd = range_min a {idx + 1..?rl}"
    show ?thesis
    proof (cases "i' = ?rl")
      case True
      then show ?thesis using c rmle by (simp add: range_min_empty)
    next
      case False
      then have "{idx + 1..min ?n (i' - 1)} = {idx + 1..?rl} \<union> {?rl..min ?n (i' - 1)}"
        using i'(2) rl c by auto
      then show ?thesis using c by (simp add: range_min_union)
    qed
  qed
  have fin: "(if i' \<le> min ?n hi then min ?rmin1 (a i') else ?rmin1)
               = range_min a {idx + 1..min ?n hi}"
  proof (cases "i' \<le> min ?n hi")
    case True
    then have i: "i' = hi" "hi \<le> ?n" using only by auto
    have "min ?rmin1 (a i') = range_min a {idx + 1..min ?n hi}"
      using core
    proof
      assume c: "?rmin1 = range_min a {idx + 1..min ?n (i' - 1)}"
      have "{idx + 1..min ?n hi} = insert hi {idx + 1..min ?n (i' - 1)}"
        using i i'(2) rl by auto
      then show ?thesis using c i amax by (simp add: range_min_insert min.commute)
    next
      assume c: "i' \<le> min ?n hi \<and> ?rmin1 = range_min a {idx + 1..i'}"
      have "{idx + 1..hi} = insert hi {idx + 1..hi}" using i i'(2) rl by auto
      then have "range_min a {idx + 1..hi} = min (a hi) (range_min a {idx + 1..hi})"
        using range_min_insert[of "{idx + 1..hi}" a hi] amax by simp
      then show ?thesis using c i by (simp add: min.commute)
    qed
    then show ?thesis using True by simp
  next
    case False
    have e: "min ?n (i' - 1) = min ?n hi" using False ilo ihi by auto
    have "?rmin1 = range_min a {idx + 1..min ?n (i' - 1)}" using core False by blast
    then have "?rmin1 = range_min a {idx + 1..min ?n hi}" unfolding e .
    then show ?thesis unfolding if_not_P[OF False] .
  qed
  have fin': "(if sd_rl ?sd2 \<le> min ?n hi then min (sd_rmin ?sd2) (a (sd_rl ?sd2)) else sd_rmin ?sd2)
               = range_min a {idx + 1..min ?n hi}"
    using fin by (auto split: if_splits)
  show ?thesis
  proof (intro exI[of _ ?sd2] conjI)
    show "sides_right s hi sd = Some ?sd2" by (rule sr)
    show "(if sd_rl ?sd2 \<le> min ?n hi then min (sd_rmin ?sd2) (a (sd_rl ?sd2)) else sd_rmin ?sd2)
               = range_min a {idx + 1..min ?n hi}" by (rule fin')
    show "sd_rl ?sd2 \<le> min ?n hi \<longrightarrow> sd_rl ?sd2 = hi" using only by simp
  qed (use ihi i'(2) rl in simp_all)
qed

lemma sides_update_char:
  assumes amax: "\<forall>i. rmq_a s i \<le> INT_MAX"
    and lb: "\<forall>k. 1 \<le> k \<and> k \<le> idx - 1 \<longrightarrow>
               rmq_lbit s k = range_min (rmq_a s) {k - lowbit k<..k}"
    and rb: "\<forall>k. idx + 1 \<le> k \<and> k \<le> rmq_n s \<longrightarrow>
               rmq_rbit s k = range_min (rmq_a s) {k..min (rmq_n s) (k + lowbit k - 1)}"
    and okl: "left_ok (rmq_a s) idx lo sd" and okr: "right_ok (rmq_a s) (rmq_n s) idx hi sd"
    and lo: "1 \<le> lo" "lo \<le> idx"
    and b: "b = lo - 1 \<or> b = lo" "b = 0 \<or> idx - 1 < b + lowbit b"
    and t: "t = hi \<or> t = hi + 1" "t - lowbit t < idx + 1"
  shows "\<exists>sd'. sides_update s lo hi sd = Some sd' \<and>
           left_ok (rmq_a s) idx lo sd' \<and> right_ok (rmq_a s) (rmq_n s) idx hi sd' \<and>
           sd_lmin sd' = range_min (rmq_a s) {lo..idx - 1} \<and>
           sd_rmin sd' = range_min (rmq_a s) {idx + 1..min (rmq_n s) hi}"
proof -
  let ?a = "rmq_a s" and ?n = "rmq_n s"
  from sides_left_post[OF amax lb okl lo(1) b] obtain sd1 where sd1:
    "sides_left s lo sd = Some sd1"
    "sd_rl sd1 = sd_rl sd" "sd_rr sd1 = sd_rr sd" "sd_rmin sd1 = sd_rmin sd"
    "sd_ll sd1 = sd_lr sd1 - lowbit (sd_lr sd1)"
    "lo - 1 \<le> sd_lr sd1" "sd_lr sd1 \<le> lo" "sd_lr sd1 \<le> idx - 1"
    "(if sd_lr sd1 \<ge> lo then min (sd_lmin sd1) (?a (sd_lr sd1)) else sd_lmin sd1)
              = range_min ?a {lo..idx - 1}"
    by blast
  let ?sd1' = "if sd_lr sd1 \<ge> lo
               then sd1\<lparr>sd_lmin := min (sd_lmin sd1) (?a (sd_lr sd1))\<rparr> else sd1"
  have l1: "sd_lmin ?sd1' = range_min ?a {lo..idx - 1}" using sd1(9) by (auto split: if_splits)
  have f1: "sd_lr ?sd1' = sd_lr sd1" "sd_ll ?sd1' = sd_ll sd1" "sd_rl ?sd1' = sd_rl sd"
    "sd_rr ?sd1' = sd_rr sd" "sd_rmin ?sd1' = sd_rmin sd"
    using sd1 by simp_all
  have okl1: "left_ok ?a idx lo ?sd1'"
  proof (cases "sd_lr sd1 \<ge> lo")
    case True
    then have "sd_lr sd1 = lo" using sd1(7) by simp
    then show ?thesis unfolding left_ok_def f1 l1 using sd1(5,6,8) by simp
  next
    case False
    then have e: "sd_lr sd1 = lo - 1" using sd1(6) by simp
    have "{lo - 1<..idx - 1} = {lo..idx - 1}" by auto
    then show ?thesis unfolding left_ok_def f1 l1 using sd1(5,8) e by simp
  qed
  have okr1: "right_ok ?a ?n idx hi ?sd1'"
    using okr unfolding right_ok_def f1 .
  have idx0: "0 \<le> idx" using lo by simp
  from sides_right_post[OF amax rb okr1 idx0 t] obtain sd2 where sd2:
    "sides_right s hi ?sd1' = Some sd2"
    "sd_lr sd2 = sd_lr ?sd1'" "sd_ll sd2 = sd_ll ?sd1'" "sd_lmin sd2 = sd_lmin ?sd1'"
    "sd_rr sd2 = sd_rl sd2 + lowbit (sd_rl sd2)"
    "idx + 1 \<le> sd_rl sd2" "sd_rl sd2 \<le> hi + 1"
    "sd_rl sd2 \<le> min ?n hi \<longrightarrow> sd_rl sd2 = hi"
    "(if sd_rl sd2 \<le> min ?n hi then min (sd_rmin sd2) (?a (sd_rl sd2)) else sd_rmin sd2)
              = range_min ?a {idx + 1..min ?n hi}"
    by blast
  let ?sd2' = "if sd_rl sd2 \<le> min ?n hi
               then sd2\<lparr>sd_rmin := min (sd_rmin sd2) (?a (sd_rl sd2))\<rparr> else sd2"
  have r2: "sd_rmin ?sd2' = range_min ?a {idx + 1..min ?n hi}" using sd2(9) by (auto split: if_splits)
  have f2: "sd_lr ?sd2' = sd_lr ?sd1'" "sd_ll ?sd2' = sd_ll ?sd1'" "sd_lmin ?sd2' = sd_lmin ?sd1'"
    "sd_rl ?sd2' = sd_rl sd2" "sd_rr ?sd2' = sd_rr sd2"
    using sd2(2,3,4) by simp_all
  have okl2: "left_ok ?a idx lo ?sd2'"
    using okl1 unfolding left_ok_def f2 .
  have okr2: "right_ok ?a ?n idx hi ?sd2'"
  proof (cases "sd_rl sd2 \<le> min ?n hi")
    case True
    then have "sd_rl sd2 = hi" "hi \<le> ?n" using sd2(8) by auto
    then show ?thesis unfolding right_ok_def f2 r2 using sd2(5,6,7) by simp
  next
    case False
    then have "min ?n (sd_rl sd2 - 1) = min ?n hi" using sd2(7) by auto
    then show ?thesis unfolding right_ok_def f2 r2 using sd2(5,6,7) by simp
  qed
  have "sides_update s lo hi sd = Some ?sd2'"
    unfolding sides_update_def sd1(1) using sd2(1) by simp
  then show ?thesis using okl2 okr2 r2 l1 f2(3) by (intro exI[of _ ?sd2']) simp
qed

section \<open>FenwickRMQ: the node loops of update\<close>

lemma range_min_upd_notin:
  "idx \<notin> B \<Longrightarrow> range_min (a(idx := val)) B = range_min a B"
  by (rule range_min_cong) auto

lemma node_new_value:
  assumes B: "B = insert idx B0" "finite B0" "idx \<notin> B0"
    and le: "a idx \<le> INT_MAX" "val \<le> INT_MAX"
  shows "range_min (a(idx := val)) B = min val (range_min a B0)"
    and "val \<le> range_min a B \<Longrightarrow> range_min (a(idx := val)) B = val"
    and "\<not> val \<le> range_min a B \<Longrightarrow> range_min a B \<noteq> a idx \<Longrightarrow>
         range_min (a(idx := val)) B = range_min a B"
proof -
  have old: "range_min a B = min (a idx) (range_min a B0)"
    unfolding B(1) using B(2) le(1) by (rule range_min_insert)
  have "range_min (a(idx := val)) B = min ((a(idx := val)) idx) (range_min (a(idx := val)) B0)"
    unfolding B(1) using B(2) le(2) by (intro range_min_insert) simp_all
  then show new: "range_min (a(idx := val)) B = min val (range_min a B0)"
    using range_min_upd_notin[OF B(3), of a val] by simp
  show "range_min (a(idx := val)) B = val" if "val \<le> range_min a B"
    using that new old by simp
  show "range_min (a(idx := val)) B = range_min a B"
    if "\<not> val \<le> range_min a B" "range_min a B \<noteq> a idx"
    using that new old by (simp add: min_def split: if_splits)
qed

lemma chain_next:
  assumes "1 \<le> r" "r < k" "k - lowbit k < idx" "idx \<le> r"
  shows "r + lowbit r \<le> k"
proof -
  have "r \<le> k" "k - lowbit k < r" "k \<noteq> r" using assms by simp_all
  with chain_step[OF assms(1), of k] show ?thesis by simp
qed

lemma update_lbit_loop_char:
  assumes amax: "\<forall>i. a i \<le> INT_MAX" and vmax: "val \<le> INT_MAX"
    and idx: "1 \<le> idx" "idx \<le> n"
  shows "rmq_n s = n \<Longrightarrow> rmq_a s = a \<Longrightarrow>
     (\<forall>k. idx + 1 \<le> k \<and> k \<le> n \<longrightarrow>
        rmq_rbit s k = range_min a {k..min n (k + lowbit k - 1)}) \<Longrightarrow>
     (\<forall>k. 1 \<le> k \<and> k \<le> n \<longrightarrow>
        rmq_lbit s k = range_min (if idx \<le> k \<and> k < r then a(idx := val) else a)
                         {k - lowbit k<..k}) \<Longrightarrow>
     idx \<le> r \<Longrightarrow> r - lowbit r < idx \<Longrightarrow> l = r - lowbit r + 1 \<Longrightarrow>
     left_ok a idx l sd \<Longrightarrow> right_ok a n idx r sd \<Longrightarrow>
     \<exists>s'. update_lbit_loop s idx val l r sd = Some s' \<and> rmq_n s' = n \<and> rmq_a s' = a \<and>
          rmq_rbit s' = rmq_rbit s \<and>
          (\<forall>k. 1 \<le> k \<and> k \<le> n \<longrightarrow>
             rmq_lbit s' k = range_min (a(idx := val)) {k - lowbit k<..k})"
proof (induction "nat (n + 1 - r)" arbitrary: s r l sd rule: less_induct)
  case less
  let ?a' = "a(idx := val)"
  note n = less.prems(1) and a = less.prems(2) and rb = less.prems(3) and lbv = less.prems(4)
    and r = less.prems(5,6) and l = less.prems(7) and okl = less.prems(8) and okr = less.prems(9)
  have r1: "1 \<le> r" using r idx by simp
  have lbr: "0 < lowbit r" "lowbit r \<le> r" using r1 lowbit_gt0 lowbit_le by auto
  show ?case
  proof (cases "r \<le> n")
    case False
    have "update_lbit_loop s idx val l r sd = Some s"
      using False n by (subst update_lbit_loop.simps) simp
    moreover have "rmq_lbit s k = range_min ?a' {k - lowbit k<..k}" if k: "1 \<le> k \<and> k \<le> n" for k
    proof (cases "idx \<le> k")
      case True
      then show ?thesis using lbv k False by simp
    next
      case c: False
      then have "idx \<notin> {k - lowbit k<..k}" by simp
      from range_min_upd_notin[OF this] show ?thesis using lbv k c by simp
    qed
    ultimately show ?thesis using n a by simp
  next
    case True
    let ?r' = "r + lowbit r"
    let ?l' = "?r' - lowbit ?r' + 1"
    let ?B = "{r - lowbit r<..r}"
    let ?R = "{l..idx - 1} \<union> {idx + 1..r}"
    have cur: "rmq_lbit s r = range_min a ?B" using lbv r1 True by simp
    have B: "?B = insert idx ?R" using r l by auto
    have B0: "finite ?R" "idx \<notin> ?R" by auto
    note nv = node_new_value[OF B B0 amax[rule_format] vmax]
    have r'cov: "?r' - lowbit ?r' < idx" using up_parent_left[OF r1] r by simp
    have l'le: "?l' \<le> l" using up_parent_left[OF r1] l by simp
    have meas: "nat (n + 1 - ?r') < nat (n + 1 - r)" using lbr True by simp
    have next_ok: "\<exists>s'. update_lbit_loop s1 idx val ?l' ?r' sd1 = Some s' \<and> rmq_n s' = n \<and>
          rmq_a s' = a \<and> rmq_rbit s' = rmq_rbit s \<and>
          (\<forall>k. 1 \<le> k \<and> k \<le> n \<longrightarrow>
             rmq_lbit s' k = range_min ?a' {k - lowbit k<..k})"
      if s1: "s1 = s\<lparr>rmq_lbit := (rmq_lbit s)(r := range_min ?a' ?B)\<rparr>"
        and sd1: "left_ok a idx l sd1" "right_ok a n idx r sd1" for s1 sd1
    proof -
      have lbv1: "\<forall>k. 1 \<le> k \<and> k \<le> n \<longrightarrow>
        rmq_lbit s1 k = range_min (if idx \<le> k \<and> k < ?r' then ?a' else a) {k - lowbit k<..k}"
      proof (intro allI impI)
        fix k assume k: "1 \<le> k \<and> k \<le> n"
        show "rmq_lbit s1 k = range_min (if idx \<le> k \<and> k < ?r' then ?a' else a) {k - lowbit k<..k}"
        proof (cases "k = r")
          case True
          then show ?thesis using s1 r lbr by simp
        next
          case kr: False
          have old: "rmq_lbit s1 k = range_min (if idx \<le> k \<and> k < r then ?a' else a) {k - lowbit k<..k}"
            using s1 kr lbv k by simp
          show ?thesis
          proof (cases "r < k \<and> k < ?r'")
            case False
            then have "(k < ?r') = (k < r)" using kr lbr by auto
            then show ?thesis using old by simp
          next
            case c: True
            have "idx \<notin> {k - lowbit k<..k}"
            proof
              assume "idx \<in> {k - lowbit k<..k}"
              then have "k - lowbit k < idx" by simp
              from chain_next[OF r1 _ this r(1)] c show False by simp
            qed
            from range_min_upd_notin[OF this] show ?thesis using old c r by simp
          qed
        qed
      qed
      have "\<exists>s'. update_lbit_loop s1 idx val ?l' ?r' sd1 = Some s' \<and> rmq_n s' = n \<and>
          rmq_a s' = a \<and> rmq_rbit s' = rmq_rbit s1 \<and>
          (\<forall>k. 1 \<le> k \<and> k \<le> n \<longrightarrow>
             rmq_lbit s' k = range_min ?a' {k - lowbit k<..k})"
      proof (rule less.hyps[OF meas _ _ _ lbv1 _ r'cov refl])
        show "rmq_n s1 = n" using s1 n by simp
        show "rmq_a s1 = a" using s1 a by simp
        show "\<forall>k. idx + 1 \<le> k \<and> k \<le> n \<longrightarrow>
                rmq_rbit s1 k = range_min a {k..min n (k + lowbit k - 1)}"
          using s1 rb by simp
        show "idx \<le> ?r'" using r lbr by simp
        show "left_ok a idx ?l' sd1" using left_ok_mono[OF sd1(1) l'le] .
        show "right_ok a n idx ?r' sd1" using right_ok_mono[OF sd1(2)] lbr by simp
      qed
      then show ?thesis using s1 by simp
    qed
    show ?thesis
    proof (cases "val \<le> rmq_lbit s r")
      case c1: True
      have v: "range_min ?a' ?B = val" using nv(2) c1 cur by simp
      have "update_lbit_loop s idx val l r sd
          = update_lbit_loop (s\<lparr>rmq_lbit := (rmq_lbit s)(r := val)\<rparr>) idx val ?l' ?r' sd"
        using True n c1 by (subst update_lbit_loop.simps) simp
      then show ?thesis using next_ok[OF _ okl okr] v by simp
    next
      case c1: False
      show ?thesis
      proof (cases "rmq_lbit s r = rmq_a s idx")
        case c2: False
        have v: "range_min ?a' ?B = rmq_lbit s r" using nv(3) c1 c2 cur a by simp
        have same: "s\<lparr>rmq_lbit := (rmq_lbit s)(r := rmq_lbit s r)\<rparr> = s" by simp
        have "update_lbit_loop s idx val l r sd = update_lbit_loop s idx val ?l' ?r' sd"
          using True n c1 c2 by (subst update_lbit_loop.simps) simp
        then show ?thesis using next_ok[OF _ okl okr, of s] v same by simp
      next
        case c2: True
        have l1: "1 \<le> l" "l \<le> idx" using l r lbr by simp_all
        have lb': "\<forall>k. 1 \<le> k \<and> k \<le> idx - 1 \<longrightarrow>
               rmq_lbit s k = range_min (rmq_a s) {k - lowbit k<..k}"
          using lbv idx a by simp
        have rb': "\<forall>k. idx + 1 \<le> k \<and> k \<le> rmq_n s \<longrightarrow>
               rmq_rbit s k = range_min (rmq_a s) {k..min (rmq_n s) (k + lowbit k - 1)}"
          using rb a n by simp
        have bt: "l - 1 = 0 \<or> idx - 1 < (l - 1) + lowbit (l - 1)"
        proof (cases "l - 1 = 0")
          case False
          then have "1 \<le> r - lowbit r" using l l1 by simp
          from parent_block_right[OF r1 this] show ?thesis using l r by simp
        qed simp
        have tt: "r - lowbit r < idx + 1" using r by simp
        from sides_update_char[of s idx l sd r "l - 1" r, OF _ lb' rb' _ _ l1 _ bt _ tt]
          amax a n okl okr
        obtain sd' where sd':
          "sides_update s l r sd = Some sd'" "left_ok a idx l sd'" "right_ok a n idx r sd'"
          "sd_lmin sd' = range_min a {l..idx - 1}" "sd_rmin sd' = range_min a {idx + 1..min n r}"
          by auto
        have "min n r = r" using True by simp
        then have "min val (min (sd_lmin sd') (sd_rmin sd')) = min val (range_min a ?R)"
          using sd'(4,5) by (simp add: range_min_union)
        then have v: "range_min ?a' ?B = min val (min (sd_lmin sd') (sd_rmin sd'))"
          using nv(1) by simp
        have "update_lbit_loop s idx val l r sd
          = update_lbit_loop (s\<lparr>rmq_lbit := (rmq_lbit s)(r := min val (min (sd_lmin sd') (sd_rmin sd')))\<rparr>)
              idx val ?l' ?r' sd'"
          using True n c1 c2 sd'(1) by (subst update_lbit_loop.simps) simp
        then show ?thesis using next_ok[OF _ sd'(2,3)] v by simp
      qed
    qed
  qed
qed

lemma chain_prev:
  assumes "1 \<le> k" "k < l" "l \<le> idx" "idx < k + lowbit k"
  shows "k \<le> l - lowbit l"
proof -
  have "k \<le> l" "l < k + lowbit k" "l \<noteq> k" using assms by simp_all
  with down_step[OF assms(1), of l] show ?thesis by simp
qed

lemma update_rbit_loop_char:
  assumes amax: "\<forall>i. a i \<le> INT_MAX" and vmax: "val \<le> INT_MAX"
    and idx: "1 \<le> idx" "idx \<le> n"
  shows "rmq_n s = n \<Longrightarrow> rmq_a s = a \<Longrightarrow>
     (\<forall>k. 1 \<le> k \<and> k \<le> idx - 1 \<longrightarrow> rmq_lbit s k = range_min a {k - lowbit k<..k}) \<Longrightarrow>
     (\<forall>k. 1 \<le> k \<and> k \<le> n \<longrightarrow>
        rmq_rbit s k = range_min (if l < k \<and> k \<le> idx then a(idx := val) else a)
                         {k..min n (k + lowbit k - 1)}) \<Longrightarrow>
     0 \<le> l \<Longrightarrow> l \<le> idx \<Longrightarrow> r = l + lowbit l - 1 \<Longrightarrow>
     (1 \<le> l \<longrightarrow> idx < l + lowbit l \<and> left_ok a idx l sd \<and> right_ok a n idx r sd) \<Longrightarrow>
     \<exists>s'. update_rbit_loop s idx val l r sd = Some s' \<and> rmq_n s' = n \<and> rmq_a s' = a \<and>
          rmq_lbit s' = rmq_lbit s \<and>
          (\<forall>k. 1 \<le> k \<and> k \<le> n \<longrightarrow>
             rmq_rbit s' k = range_min (a(idx := val)) {k..min n (k + lowbit k - 1)})"
proof (induction "nat l" arbitrary: s r l sd rule: less_induct)
  case less
  let ?a' = "a(idx := val)"
  note n = less.prems(1) and a = less.prems(2) and lb = less.prems(3) and rbv = less.prems(4)
    and l = less.prems(5,6) and r = less.prems(7) and node = less.prems(8)
  show ?case
  proof (cases "l \<ge> 1")
    case False
    have "update_rbit_loop s idx val l r sd = Some s"
      using False by (subst update_rbit_loop.simps) simp
    moreover have "rmq_rbit s k = range_min ?a' {k..min n (k + lowbit k - 1)}"
      if k: "1 \<le> k \<and> k \<le> n" for k
    proof (cases "k \<le> idx")
      case True
      then show ?thesis using rbv k False by simp
    next
      case c: False
      then have "idx \<notin> {k..min n (k + lowbit k - 1)}" by simp
      from range_min_upd_notin[OF this] show ?thesis using rbv k c by simp
    qed
    ultimately show ?thesis using n a by simp
  next
    case True
    have cov: "idx < l + lowbit l" and okl: "left_ok a idx l sd" and okr: "right_ok a n idx r sd"
      using node True by simp_all
    have lbl: "0 < lowbit l" "lowbit l \<le> l" using True lowbit_gt0 lowbit_le by auto
    let ?l' = "l - lowbit l"
    let ?r' = "?l' + lowbit ?l' - 1"
    let ?B = "{l..min n (l + lowbit l - 1)}"
    let ?R = "{l..idx - 1} \<union> {idx + 1..min n r}"
    have ln: "l \<le> n" using l idx by simp
    have cur: "rmq_rbit s l = range_min a ?B" using rbv True ln by simp
    have B: "?B = insert idx ?R" using r l cov idx by auto
    have R: "finite ?R" "idx \<notin> ?R" by auto
    note nv = node_new_value[OF B R amax[rule_format] vmax]
    have meas: "nat ?l' < nat l" using lbl True by simp
    have next_ok: "\<exists>s'. update_rbit_loop s1 idx val ?l' ?r' sd1 = Some s' \<and> rmq_n s' = n \<and>
          rmq_a s' = a \<and> rmq_lbit s' = rmq_lbit s \<and>
          (\<forall>k. 1 \<le> k \<and> k \<le> n \<longrightarrow>
             rmq_rbit s' k = range_min ?a' {k..min n (k + lowbit k - 1)})"
      if s1: "s1 = s\<lparr>rmq_rbit := (rmq_rbit s)(l := range_min ?a' ?B)\<rparr>"
        and sd1: "left_ok a idx l sd1" "right_ok a n idx r sd1" for s1 sd1
    proof -
      have rbv1: "\<forall>k. 1 \<le> k \<and> k \<le> n \<longrightarrow>
        rmq_rbit s1 k = range_min (if ?l' < k \<and> k \<le> idx then ?a' else a)
                          {k..min n (k + lowbit k - 1)}"
      proof (intro allI impI)
        fix k assume k: "1 \<le> k \<and> k \<le> n"
        show "rmq_rbit s1 k = range_min (if ?l' < k \<and> k \<le> idx then ?a' else a)
                          {k..min n (k + lowbit k - 1)}"
        proof (cases "k = l")
          case True
          then show ?thesis using s1 l lbl by simp
        next
          case kl: False
          have old: "rmq_rbit s1 k = range_min (if l < k \<and> k \<le> idx then ?a' else a)
                          {k..min n (k + lowbit k - 1)}"
            using s1 kl rbv k by simp
          show ?thesis
          proof (cases "?l' < k \<and> k < l")
            case False
            then have "(?l' < k) = (l < k)" using kl lbl by auto
            then show ?thesis using old by simp
          next
            case c: True
            have "idx \<notin> {k..min n (k + lowbit k - 1)}"
            proof
              assume "idx \<in> {k..min n (k + lowbit k - 1)}"
              then have "idx < k + lowbit k" by simp
              from chain_prev[OF _ _ l(2) this] k c show False by simp
            qed
            from range_min_upd_notin[OF this] show ?thesis using old c l by simp
          qed
        qed
      qed
      have node': "1 \<le> ?l' \<longrightarrow>
          idx < ?l' + lowbit ?l' \<and> left_ok a idx ?l' sd1 \<and> right_ok a n idx ?r' sd1"
      proof
        assume l1: "1 \<le> ?l'"
        have dp: "l + lowbit l \<le> ?l' + lowbit ?l'" using down_parent_right[OF True l1] .
        have "idx < ?l' + lowbit ?l'" using dp cov by simp
        moreover have "left_ok a idx ?l' sd1" using left_ok_mono[OF sd1(1)] lbl by simp
        moreover have "right_ok a n idx ?r' sd1" using right_ok_mono[OF sd1(2)] dp r by simp
        ultimately show "idx < ?l' + lowbit ?l' \<and> left_ok a idx ?l' sd1 \<and> right_ok a n idx ?r' sd1"
          by simp
      qed
      have "\<exists>s'. update_rbit_loop s1 idx val ?l' ?r' sd1 = Some s' \<and> rmq_n s' = n \<and>
          rmq_a s' = a \<and> rmq_lbit s' = rmq_lbit s1 \<and>
          (\<forall>k. 1 \<le> k \<and> k \<le> n \<longrightarrow>
             rmq_rbit s' k = range_min ?a' {k..min n (k + lowbit k - 1)})"
      proof (rule less.hyps[OF meas _ _ _ rbv1 _ _ refl node'])
        show "rmq_n s1 = n" using s1 n by simp
        show "rmq_a s1 = a" using s1 a by simp
        show "\<forall>k. 1 \<le> k \<and> k \<le> idx - 1 \<longrightarrow> rmq_lbit s1 k = range_min a {k - lowbit k<..k}"
          using s1 lb by simp
        show "0 \<le> ?l'" using lbl by simp
        show "?l' \<le> idx" using l lbl by simp
      qed
      then show ?thesis using s1 by simp
    qed
    show ?thesis
    proof (cases "val \<le> rmq_rbit s l")
      case c1: True
      have v: "range_min ?a' ?B = val" using nv(2) c1 cur by simp
      have "update_rbit_loop s idx val l r sd
          = update_rbit_loop (s\<lparr>rmq_rbit := (rmq_rbit s)(l := val)\<rparr>) idx val ?l' ?r' sd"
        using True c1 by (subst update_rbit_loop.simps) simp
      then show ?thesis using next_ok[OF _ okl okr] v by simp
    next
      case c1: False
      show ?thesis
      proof (cases "rmq_rbit s l = rmq_a s idx")
        case c2: False
        have v: "range_min ?a' ?B = rmq_rbit s l" using nv(3) c1 c2 cur a by simp
        have same: "s\<lparr>rmq_rbit := (rmq_rbit s)(l := rmq_rbit s l)\<rparr> = s" by simp
        have "update_rbit_loop s idx val l r sd = update_rbit_loop s idx val ?l' ?r' sd"
          using True c1 c2 by (subst update_rbit_loop.simps) simp
        then show ?thesis using next_ok[OF _ okl okr, of s] v same by simp
      next
        case c2: True
        have lb': "\<forall>k. 1 \<le> k \<and> k \<le> idx - 1 \<longrightarrow>
               rmq_lbit s k = range_min (rmq_a s) {k - lowbit k<..k}"
          using lb a by simp
        have rb': "\<forall>k. idx + 1 \<le> k \<and> k \<le> rmq_n s \<longrightarrow>
               rmq_rbit s k = range_min (rmq_a s) {k..min (rmq_n s) (k + lowbit k - 1)}"
          using rbv a n idx by simp
        have bt: "l = 0 \<or> idx - 1 < l + lowbit l" using cov by simp
        have tt: "(r + 1) - lowbit (r + 1) < idx + 1"
          using up_parent_left[OF True] r l lbl by simp
        from sides_update_char[of s idx l sd r l "r + 1", OF _ lb' rb' _ _ True l(2) _ bt _ tt]
          amax a n okl okr
        obtain sd' where sd':
          "sides_update s l r sd = Some sd'" "left_ok a idx l sd'" "right_ok a n idx r sd'"
          "sd_lmin sd' = range_min a {l..idx - 1}" "sd_rmin sd' = range_min a {idx + 1..min n r}"
          by auto
        have "min val (min (sd_lmin sd') (sd_rmin sd')) = min val (range_min a ?R)"
          using sd'(4,5) by (simp add: range_min_union)
        then have v: "range_min ?a' ?B = min val (min (sd_lmin sd') (sd_rmin sd'))"
          using nv(1) by simp
        have "update_rbit_loop s idx val l r sd
          = update_rbit_loop (s\<lparr>rmq_rbit := (rmq_rbit s)(l := min val (min (sd_lmin sd') (sd_rmin sd')))\<rparr>)
              idx val ?l' ?r' sd'"
          using True c1 c2 sd'(1) by (subst update_rbit_loop.simps) simp
        then show ?thesis using next_ok[OF _ sd'(2,3)] v by simp
      qed
    qed
  qed
qed

section \<open>FenwickRMQ: update keeps the invariant; interleaved calls\<close>

lemma rmq_update_inv:
  assumes inv: "rmq_inv s" and idx: "1 \<le> idx" "idx \<le> rmq_n s" and vmax: "val \<le> INT_MAX"
  shows "\<exists>s'. rmq_update s idx val = Some s' \<and> rmq_n s' = rmq_n s \<and>
           rmq_a s' = (rmq_a s)(idx := val) \<and> rmq_inv s'"
proof (cases "rmq_a s idx = val")
  case True
  then have "(rmq_a s)(idx := val) = rmq_a s" by auto
  then show ?thesis using True inv by (simp add: rmq_update_def)
next
  case False
  let ?a = "rmq_a s" and ?n = "rmq_n s"
  let ?a' = "?a(idx := val)"
  have amax: "\<forall>i. ?a i \<le> INT_MAX" using inv by (simp add: rmq_inv_def)
  have lb0: "\<forall>k. 1 \<le> k \<and> k \<le> ?n \<longrightarrow> rmq_lbit s k = range_min ?a {k - lowbit k<..k}"
    and rb0: "\<forall>k. 1 \<le> k \<and> k \<le> ?n \<longrightarrow>
                rmq_rbit s k = range_min ?a {k..min ?n (k + lowbit k - 1)}"
    using inv by (simp_all add: rmq_inv_def)
  have lbi: "0 < lowbit idx" "lowbit idx \<le> idx" using idx lowbit_gt0 lowbit_le by auto
  have "\<exists>s'. update_lbit_loop s idx val (idx - lowbit idx + 1) idx (sides_init idx) = Some s' \<and>
          rmq_n s' = ?n \<and> rmq_a s' = ?a \<and> rmq_rbit s' = rmq_rbit s \<and>
          (\<forall>k. 1 \<le> k \<and> k \<le> ?n \<longrightarrow> rmq_lbit s' k = range_min ?a' {k - lowbit k<..k})"
  proof (rule update_lbit_loop_char[OF amax vmax idx refl refl])
    show "\<forall>k. idx + 1 \<le> k \<and> k \<le> ?n \<longrightarrow>
            rmq_rbit s k = range_min ?a {k..min ?n (k + lowbit k - 1)}"
      using rb0 idx by simp
    show "\<forall>k. 1 \<le> k \<and> k \<le> ?n \<longrightarrow>
            rmq_lbit s k = range_min (if idx \<le> k \<and> k < idx then ?a' else ?a) {k - lowbit k<..k}"
      using lb0 by simp
    show "idx \<le> idx" by simp
    show "idx - lowbit idx < idx" using lbi by simp
    show "idx - lowbit idx + 1 = idx - lowbit idx + 1" by simp
    show "left_ok ?a idx (idx - lowbit idx + 1) (sides_init idx)"
      using sides_init_ok[of "idx - lowbit idx + 1" idx idx ?a ?n] lbi by simp
    show "right_ok ?a ?n idx idx (sides_init idx)"
      using sides_init_ok[of idx idx idx ?a ?n] by simp
  qed
  then obtain s1 where s1:
    "update_lbit_loop s idx val (idx - lowbit idx + 1) idx (sides_init idx) = Some s1"
    "rmq_n s1 = ?n" "rmq_a s1 = ?a" "rmq_rbit s1 = rmq_rbit s"
    "\<forall>k. 1 \<le> k \<and> k \<le> ?n \<longrightarrow> rmq_lbit s1 k = range_min ?a' {k - lowbit k<..k}"
    by blast
  have "\<exists>s'. update_rbit_loop s1 idx val idx (idx + lowbit idx - 1) (sides_init idx) = Some s' \<and>
          rmq_n s' = ?n \<and> rmq_a s' = ?a \<and> rmq_lbit s' = rmq_lbit s1 \<and>
          (\<forall>k. 1 \<le> k \<and> k \<le> ?n \<longrightarrow>
             rmq_rbit s' k = range_min ?a' {k..min ?n (k + lowbit k - 1)})"
  proof (rule update_rbit_loop_char[OF amax vmax idx s1(2) s1(3)])
    show "\<forall>k. 1 \<le> k \<and> k \<le> idx - 1 \<longrightarrow> rmq_lbit s1 k = range_min ?a {k - lowbit k<..k}"
    proof (intro allI impI)
      fix k assume k: "1 \<le> k \<and> k \<le> idx - 1"
      then have "idx \<notin> {k - lowbit k<..k}" by simp
      from range_min_upd_notin[OF this, of ?a val] show "rmq_lbit s1 k = range_min ?a {k - lowbit k<..k}"
        using s1(5) k idx by simp
    qed
    show "\<forall>k. 1 \<le> k \<and> k \<le> ?n \<longrightarrow>
            rmq_rbit s1 k = range_min (if idx < k \<and> k \<le> idx then ?a' else ?a)
                              {k..min ?n (k + lowbit k - 1)}"
      using rb0 s1(4) by simp
    show "0 \<le> idx" using idx by simp
    show "idx \<le> idx" by simp
    show "idx + lowbit idx - 1 = idx + lowbit idx - 1" by simp
    show "1 \<le> idx \<longrightarrow> idx < idx + lowbit idx \<and> left_ok ?a idx idx (sides_init idx) \<and>
            right_ok ?a ?n idx (idx + lowbit idx - 1) (sides_init idx)"
      using sides_init_ok[of idx idx "idx + lowbit idx - 1" ?a ?n] lbi by simp
  qed
  then obtain s2 where s2:
    "update_rbit_loop s1 idx val idx (idx + lowbit idx - 1) (sides_init idx) = Some s2"
    "rmq_n s2 = ?n" "rmq_a s2 = ?a" "rmq_lbit s2 = rmq_lbit s1"
    "\<forall>k. 1 \<le> k \<and> k \<le> ?n \<longrightarrow> rmq_rbit s2 k = range_min ?a' {k..min ?n (k + lowbit k - 1)}"
    by blast
  let ?s' = "s2\<lparr>rmq_a := (rmq_a s2)(idx := val)\<rparr>"
  have u: "rmq_update s idx val = Some ?s'"
    using False s1(1) s2(1) by (simp add: rmq_update_def)
  have "rmq_inv ?s'"
    unfolding rmq_inv_def using amax vmax s2 s1(5) by simp
  then show ?thesis using u s2(2,3) by simp
qed

lemma rmq_run_correct:
  assumes "rmq_inv s" "\<forall>x \<in> set ops. rmq_valid (rmq_n s) x"
  shows "\<exists>s'. rmq_run s ops = Some (shadow_results (rmq_a s) ops, s')"
  using assms
proof (induction ops arbitrary: s)
  case Nil
  then show ?case by simp
next
  case (Cons x ops)
  show ?case
  proof (cases x)
    case (RUpdate idx val)
    then have v: "1 \<le> idx" "idx \<le> rmq_n s" "val \<le> INT_MAX" using Cons.prems(2) by auto
    from rmq_update_inv[OF Cons.prems(1) v] obtain s1 where s1:
      "rmq_update s idx val = Some s1" "rmq_n s1 = rmq_n s"
      "rmq_a s1 = (rmq_a s)(idx := val)" "rmq_inv s1" by blast
    have "\<forall>x \<in> set ops. rmq_valid (rmq_n s1) x" using Cons.prems(2) s1(2) by simp
    from Cons.IH[OF s1(4) this] obtain s' where
      "rmq_run s1 ops = Some (shadow_results (rmq_a s1) ops, s')" by blast
    then show ?thesis using RUpdate s1 by simp
  next
    case (RQuery f t)
    then have v: "1 \<le> f" "f \<le> t" "t \<le> rmq_n s" using Cons.prems(2) by auto
    have q: "rmq_query s f t = Some (range_min (rmq_a s) {f..t}, s)"
      using rmq_query_correct[OF Cons.prems(1) v] .
    have "range_min (rmq_a s) {f..t} = Min (rmq_a s ` {f..t})"
      using v Cons.prems(1) by (intro range_min_Min) (auto simp: rmq_inv_def)
    moreover have "\<forall>x \<in> set ops. rmq_valid (rmq_n s) x" using Cons.prems(2) by simp
    from Cons.IH[OF Cons.prems(1) this] obtain s' where
      "rmq_run s ops = Some (shadow_results (rmq_a s) ops, s')" by blast
    ultimately show ?thesis using RQuery q by simp
  qed
qed

text \<open>
  Claim C2. For a structure of size \<open>n\<close>, after any interleaved sequence of
  \<open>update(idx, val)\<close> with \<open>1 \<le> idx \<le> n\<close> (and \<open>val\<close> an \<open>int\<close>, so at most \<open>INT_MAX\<close>)
  and \<open>query(from, to)\<close> with \<open>1 \<le> from \<le> to \<le> n\<close>, every call returns, and every query
  returns the minimum of \<open>a[from..to]\<close> of the shadow array, whose unset slots hold
  \<open>INT_MAX\<close>.
\<close>

theorem rmq_query_matches_shadow:
  assumes "\<forall>x \<in> set ops. rmq_valid n x"
  shows "\<exists>s. rmq_run (rmq_new n) ops = Some (shadow_results (\<lambda>_. INT_MAX) ops, s)"
  using rmq_run_correct[OF rmq_new_inv, of ops n] assms by (simp add: rmq_new_def)

theorem rmq_query_matches_shadow_witness:
  "\<exists>s. rmq_run (rmq_new 5)
         [RUpdate 1 5, RUpdate 2 3, RUpdate 3 1, RUpdate 4 4, RUpdate 5 2, RQuery 2 4,
          RUpdate 3 10, RQuery 2 4] = Some ([1, 3], s)"
proof -
  have e: "{2..4::int} = {2, 3, 4}" by auto
  show ?thesis
    using rmq_query_matches_shadow[of "[RUpdate 1 5, RUpdate 2 3, RUpdate 3 1, RUpdate 4 4,
          RUpdate 5 2, RQuery 2 4, RUpdate 3 10, RQuery 2 4]" 5]
    by (simp add: INT_MAX_def e)
qed

end
